theory Spec2Isabelle
  imports Complex_Main "HOL-Library.Word"
begin

unbundle bit_operations_syntax

section \<open>The junoload test engine (test/drv/junoload/tsteng.go)\<close>

text \<open>
  Go's \<open>int\<close> is modelled as \<open>int\<close>; where the source converts to a sized integer
  (\<open>int64(s+1)\<close>, \<open>uint32(s)\<close>) the conversion is \<open>word_of_int\<close>, which is the
  wrap-around. \<open>RequestType\<close> is \<open>uint8\<close>. Durations and times are nanoseconds.
  Go's \<open>error\<close> is \<open>string option\<close>: \<open>None\<close> is \<open>nil\<close>.
\<close>

text \<open>The value a 64-bit \<open>int\<close> holds after an operation whose exact result is \<open>x\<close>.\<close>

definition wrap64 :: "int \<Rightarrow> int" where
  "wrap64 x = sint (word_of_int x :: 64 word)"

subsection \<open>Constants and data\<close>

type_synonym RequestType = "8 word"

definition kRequestTypeCreate :: RequestType where "kRequestTypeCreate = 0"
definition kRequestTypeGet :: RequestType where "kRequestTypeGet = 1"
definition kRequestTypeUpdate :: RequestType where "kRequestTypeUpdate = 2"
definition kRequestTypeSet :: RequestType where "kRequestTypeSet = 3"
definition kRequestTypeDestroy :: RequestType where "kRequestTypeDestroy = 4"
definition kNumRequestTypes :: RequestType where "kNumRequestTypes = 5"

definition MaxDeletes :: int where "MaxDeletes = 10000"

text \<open>
  Modelled from the spec: \<open>client.IContext\<close> is declared outside src/. The spec gives
  it a creation time and a time to live, and a record is expired iff
  \<open>creationTime + timeToLive < now\<close>.
\<close>

record IContext =
  GetCreationTime :: nat
  GetTimeToLive :: nat

record Record =
  key :: "8 word list"
  ctx :: "IContext option"

record RecordStore =
  records :: "Record list"
  numKeys :: int
  currGet :: int
  nextDelete :: int
  offsetDel :: int
  offsetGet :: int
  LastDelete :: bool

text \<open>What ends the process: \<open>glog.Exitf\<close> and the run-time panics of the source.\<close>

datatype Fatal =
  ExitUnsupportedType
  | PanicIndexOutOfRange
  | PanicIntnArgument
  | PanicDivideByZero

text \<open>The calls made on the store client. Payload and TTL come from the value
  generator, which is outside src/; a call is recorded with its key.\<close>

datatype ClientCall =
  CallCreate "8 word list"
  | CallGet "8 word list"
  | CallUpdate "8 word list"
  | CallSet "8 word list"
  | CallDestroy "8 word list"

text \<open>
  Everything the engine reads from or writes to outside its own fields:
  \<^item> \<open>rand_src\<close>, \<open>rand_pos\<close>: the raw draws of \<open>math/rand\<close> and how many were used;
  \<^item> \<open>clock\<close>, \<open>clock_pos\<close>: what successive \<open>time.Now()\<close> calls return (ns);
  \<^item> \<open>uuid_src\<close>, \<open>uuid_pos\<close>: the 16-byte arrays of successive \<open>uuid.NewV1()\<close>;
  \<^item> \<open>client_resp\<close>: context and error returned by the n-th client call, and
    \<open>client_calls\<close>: the calls issued so far, oldest first;
  \<^item> \<open>chDone\<close>, \<open>done_pos\<close>: whether the n-th poll of the done channel receives;
  \<^item> \<open>getThroughPut\<close>, \<open>tp_pos\<close>: the value generator's successive throughputs;
  \<^item> \<open>sleeps\<close>: the arguments of \<open>time.Sleep\<close>, oldest first;
  \<^item> \<open>float_term\<close>: the value of the float64 expression
    \<open>int(float64(n)*math.Log(m)/math.Log(float64(n+1)))\<close> of \<open>expRand\<close>, as a function of
    \<open>n\<close> and \<open>m\<close>. \<open>math.Log\<close> is outside src/, so the value is a parameter here;
    \<open>f64_term\<close> below computes it from a given \<open>math.Log\<close>.
\<close>

record World =
  rand_src :: "nat \<Rightarrow> nat"
  rand_pos :: nat
  clock :: "nat \<Rightarrow> int"
  clock_pos :: nat
  uuid_src :: "nat \<Rightarrow> nat \<Rightarrow> 8 word"
  uuid_pos :: nat
  client_resp :: "nat \<Rightarrow> IContext option \<times> string option"
  client_calls :: "ClientCall list"
  chDone :: "nat \<Rightarrow> bool"
  done_pos :: nat
  getThroughPut :: "nat \<Rightarrow> int"
  tp_pos :: nat
  sleeps :: "int list"
  float_term :: "int \<Rightarrow> int \<Rightarrow> int"

subsection \<open>The outside world\<close>

definition time_Now :: "World \<Rightarrow> int \<times> World" where
  "time_Now w = (clock w (clock_pos w), w\<lparr>clock_pos := Suc (clock_pos w)\<rparr>)"

text \<open>\<open>rand.Intn(n)\<close> panics unless \<open>n > 0\<close>; otherwise it returns a value in \<open>[0, n)\<close>.\<close>

definition rand_Intn :: "int \<Rightarrow> World \<Rightarrow> Fatal + (int \<times> World)" where
  "rand_Intn n w =
     (if n \<le> 0 then Inl PanicIntnArgument
      else Inr (int (rand_src w (rand_pos w)) mod n, w\<lparr>rand_pos := Suc (rand_pos w)\<rparr>))"

definition client_call :: "ClientCall \<Rightarrow> World \<Rightarrow> (IContext option \<times> string option) \<times> World" where
  "client_call c w =
     (client_resp w (length (client_calls w)), w\<lparr>client_calls := client_calls w @ [c]\<rparr>)"

subsection \<open>Keys\<close>

definition newTestKey :: "World \<Rightarrow> 8 word list \<times> World" where
  "newTestKey w =
     (let k = map (uuid_src w (uuid_pos w)) [0..<16]
      in (k[11 := (k ! 11) OR 2], w\<lparr>uuid_pos := Suc (uuid_pos w)\<rparr>))"

text \<open>\<open>binary.BigEndian.PutUint32(b[off:], v)\<close> on a slice with at least four bytes
  from \<open>off\<close>.\<close>

definition PutUint32 :: "8 word list \<Rightarrow> nat \<Rightarrow> 32 word \<Rightarrow> 8 word list" where
  "PutUint32 b off v =
     b[off := ucast (drop_bit 24 v), off + 1 := ucast (drop_bit 16 v),
       off + 2 := ucast (drop_bit 8 v), off + 3 := ucast v]"

definition NewRandomKey :: "int \<Rightarrow> 8 word list" where
  "NewRandomKey s =
     (let k0 = replicate 16 (0 :: 8 word);
          r = (ucast ((signed_drop_bit 5 ((word_of_int (s + 1) :: 64 word) * 25214903917 + 11))
                 AND 0x7fffffff) :: 32 word);
          k1 = PutUint32 k0 0 r;
          k2 = PutUint32 k1 4 (word_of_int s)
      in PutUint32 k2 12 0xff)"

definition expRand :: "int \<Rightarrow> World \<Rightarrow> Fatal + (int \<times> World)" where
  "expRand n w =
     (case rand_Intn n w of
        Inl f \<Rightarrow> Inl f
      | Inr (r, w') \<Rightarrow> Inr (wrap64 (n - 1 - float_term w' n (r + 1)), w'))"

subsection \<open>float64\<close>

text \<open>
  A finite float64 is the real number it stands for. An arithmetic result is the exact
  result rounded to the nearest number with a 53-bit significand, ties to the even
  significand. The exponent is not bounded here: overflow to infinity and subnormal
  numbers are outside this model, and so are NaN and a zero divisor (\<open>None\<close>).
\<close>

definition round_half_even :: "real \<Rightarrow> int" where
  "round_half_even q =
     (let f = \<lfloor>q\<rfloor>; d = q - of_int f
      in if d < 1 / 2 then f else if d > 1 / 2 then f + 1 else if even f then f else f + 1)"

text \<open>The unit in the last place of the 53-bit significand of \<open>x \<noteq> 0\<close>.\<close>

definition f64_ulp :: "real \<Rightarrow> real" where
  "f64_ulp x = 2 powr (of_int (\<lfloor>log 2 \<bar>x\<bar>\<rfloor> - 52))"

definition f64_round :: "real \<Rightarrow> real" where
  "f64_round x = (if x = 0 then 0 else of_int (round_half_even (x / f64_ulp x)) * f64_ulp x)"

text \<open>\<open>float64(n)\<close>, \<open>a * b\<close>, \<open>a / b\<close> and \<open>int(x)\<close>, which truncates towards zero and is
  defined by the language only when the value fits the integer type.\<close>

definition f64_of_int :: "int \<Rightarrow> real" where
  "f64_of_int n = f64_round (of_int n)"

definition f64_mul :: "real \<Rightarrow> real \<Rightarrow> real" where
  "f64_mul a b = f64_round (a * b)"

definition f64_div :: "real \<Rightarrow> real \<Rightarrow> real option" where
  "f64_div a b = (if b = 0 then None else Some (f64_round (a / b)))"

definition f64_to_int :: "real \<Rightarrow> int option" where
  "f64_to_int x =
     (if - (2 ^ 63) \<le> x \<and> x < 2 ^ 63 then Some (if 0 \<le> x then \<lfloor>x\<rfloor> else \<lceil>x\<rceil>) else None)"

text \<open>\<open>int(float64(n)*math.Log(m)/math.Log(len))\<close> with \<open>len := float64(n + 1)\<close> and
  \<open>m := float64(rand.Intn(n) + 1)\<close>, for the function \<open>lg\<close> that \<open>math.Log\<close> computes on
  float64 values.\<close>

definition f64_term :: "(real \<Rightarrow> real) \<Rightarrow> int \<Rightarrow> int \<Rightarrow> int option" where
  "f64_term lg n m =
     (case f64_div (f64_mul (f64_of_int n) (lg (f64_of_int m))) (lg (f64_of_int (wrap64 (n + 1)))) of
        None \<Rightarrow> None
      | Some q \<Rightarrow> f64_to_int q)"

text \<open>The values on which the model above is the float64 arithmetic of the machine: the
  numbers with a 53-bit significand in the range of the normal float64 numbers.\<close>

definition f64_normal :: "real \<Rightarrow> bool" where
  "f64_normal x \<longleftrightarrow> f64_round x = x \<and> 1 / 2 ^ 1022 \<le> \<bar>x\<bar> \<and> \<bar>x\<bar> < 2 ^ 1024"

subsection \<open>RecordStore\<close>

definition zeroRecord :: Record where
  "zeroRecord = \<lparr>key = [], ctx = None\<rparr>"

text \<open>\<open>time.Now().Unix()\<close> is read only when the record has a context.\<close>

definition isExpired :: "Record \<Rightarrow> World \<Rightarrow> bool \<times> World" where
  "isExpired r w =
     (case ctx r of
        None \<Rightarrow> (False, w)
      | Some c \<Rightarrow>
          (case time_Now w of
             (t, w') \<Rightarrow> (int (GetCreationTime c + GetTimeToLive c) < t div 1000000000, w')))"

definition Add :: "RecordStore \<Rightarrow> Record \<Rightarrow> RecordStore" where
  "Add s rec = (if numKeys s > 0 then s else s\<lparr>records := records s @ [rec]\<rparr>)"

definition empty :: "RecordStore \<Rightarrow> bool" where
  "empty s \<longleftrightarrow> length (records s) = 0 \<and> numKeys s = 0"

definition endOfDelete :: "RecordStore \<Rightarrow> bool" where
  "endOfDelete s \<longleftrightarrow> numKeys s > 0 \<and> (nextDelete s \<ge> numKeys s \<or> nextDelete s \<ge> MaxDeletes)"

text \<open>\<open>append(s.records[:index], s.records[index+1:]...)\<close>\<close>

definition remove_at :: "nat \<Rightarrow> 'a list \<Rightarrow> 'a list" where
  "remove_at i xs = take i xs @ drop (Suc i) xs"

definition takeRecord :: "RecordStore \<Rightarrow> World \<Rightarrow> Fatal + ((Record \<times> string option) \<times> RecordStore \<times> World)" where
  "takeRecord s w =
     (if numKeys s > 0 then
        (let rec = \<lparr>key = NewRandomKey (offsetDel s + nextDelete s), ctx = None\<rparr>
         in if endOfDelete s then Inr ((rec, Some ''no more record for destroy''), s, w)
            else Inr ((rec, None), s\<lparr>nextDelete := nextDelete s + 1\<rparr>, w))
      else
        (let sz = length (records s)
         in if sz = 0 then Inr ((zeroRecord, Some ''no record in the store''), s, w)
            else
              (case rand_Intn (int sz) w of
                 Inl f \<Rightarrow> Inl f
               | Inr (index, w') \<Rightarrow>
                   Inr ((records s ! nat index, None),
                        s\<lparr>records := remove_at (nat index) (records s)\<rparr>, w'))))"

text \<open>The local \<open>count\<close> of \<open>getRecord\<close>: the range handed to \<open>expRand\<close>.\<close>

definition getRecord_count :: "RecordStore \<Rightarrow> int" where
  "getRecord_count s =
     (if numKeys s \<ge> MaxDeletes then drop_bit 2 (numKeys s) else numKeys s)"

definition getRecord :: "RecordStore \<Rightarrow> World \<Rightarrow> Fatal + ((Record \<times> string option) \<times> RecordStore \<times> World)" where
  "getRecord s w =
     (if numKeys s > 0 then
        (case expRand (getRecord_count s) w of
           Inl f \<Rightarrow> Inl f
         | Inr (k, w') \<Rightarrow>
             Inr ((\<lparr>key = NewRandomKey (offsetGet s + k), ctx = None\<rparr>, None),
                  s\<lparr>currGet := k\<rparr>, w'))
      else
        (let sz = length (records s)
         in if sz = 0 then Inr ((zeroRecord, Some ''no record in the store''), s, w)
            else
              (case rand_Intn (int sz) w of
                 Inl f \<Rightarrow> Inl f
               | Inr (index, w') \<Rightarrow>
                   (let rec = records s ! nat index
                    in case isExpired rec w' of
                         (expired, w'') \<Rightarrow>
                           if expired then
                             Inr ((rec, Some ''expired''),
                                  s\<lparr>records := remove_at (nat index) (records s)\<rparr>, w'')
                           else Inr ((rec, None), s, w'')))))"

text \<open>
  The loops of \<open>Get\<close> and \<open>Take\<close>. The named result \<open>rec\<close> keeps the value of the last
  iteration, so it is a loop variable. With \<open>numKeys < 0\<close> and no records neither loop
  ends: not returning is \<open>None\<close>.
\<close>

partial_function (option) Get_loop ::
  "Record \<Rightarrow> RecordStore \<Rightarrow> World \<Rightarrow> (Fatal + ((Record \<times> string option) \<times> RecordStore \<times> World)) option"
where
  "Get_loop rec s w =
     (if \<not> empty s then
        (case getRecord s w of
           Inl f \<Rightarrow> Some (Inl f)
         | Inr ((rec', err), s', w') \<Rightarrow>
             if err = None then Some (Inr ((rec', err), s', w'))
             else Get_loop rec' s' w')
      else Some (Inr ((rec, Some ''no record''), s, w)))"

declare Get_loop.simps [code]

definition Get :: "RecordStore \<Rightarrow> World \<Rightarrow> (Fatal + ((Record \<times> string option) \<times> RecordStore \<times> World)) option" where
  "Get s w = Get_loop zeroRecord s w"

partial_function (option) Take_loop ::
  "Record \<Rightarrow> RecordStore \<Rightarrow> World \<Rightarrow> (Fatal + ((Record \<times> string option) \<times> RecordStore \<times> World)) option"
where
  "Take_loop rec s w =
     (if \<not> empty s \<and> \<not> endOfDelete s then
        (case takeRecord s w of
           Inl f \<Rightarrow> Some (Inl f)
         | Inr ((rec', err), s', w') \<Rightarrow>
             (case (if err = None then isExpired rec' w' else (True, w')) of
                (expired, w'') \<Rightarrow>
                  if \<not> expired then
                    Some (Inr ((rec', err),
                               (if endOfDelete s' then s'\<lparr>LastDelete := True\<rparr> else s'), w''))
                  else Take_loop rec' s' w''))
      else Some (Inr ((rec, Some ''no unexpired record''), s, w)))"

declare Take_loop.simps [code]

definition Take :: "RecordStore \<Rightarrow> World \<Rightarrow> (Fatal + ((Record \<times> string option) \<times> RecordStore \<times> World)) option" where
  "Take s w = Take_loop zeroRecord s w"

subsection \<open>The engine's data\<close>

text \<open>
  Modelled from the spec: \<open>Statistics\<close>, \<open>RandomGen\<close> and \<open>RequestSequence\<close> are
  declared outside src/. The spec's statistics accumulate every \<open>put(operationType,
  elapsed, error)\<close> and expose the total request count and the start time; the value
  generator exposes \<open>isVariable\<close> and \<open>disableGetTTL\<close>; the sequence is an ordered
  list of \<open>{operationType, repeatCount}\<close> pairs.
\<close>

record Statistics =
  samples :: "(RequestType \<times> int \<times> string option) list"
  tmStart :: int

definition Put :: "Statistics \<Rightarrow> RequestType \<Rightarrow> int \<Rightarrow> string option \<Rightarrow> Statistics" where
  "Put st t tm err = st\<lparr>samples := samples st @ [(t, tm, err)]\<rparr>"

definition GetNumRequests :: "Statistics \<Rightarrow> int" where
  "GetNumRequests st = int (length (samples st))"

record RandomGen =
  isVariable :: bool
  disableGetTTL :: bool

record RequestItem =
  reqType :: RequestType
  numRequests :: int

record RequestSequence =
  items :: "RequestItem list"

text \<open>The method values stored in \<open>invokeFuncs\<close>; \<open>None\<close> in the slice is \<open>nil\<close>.\<close>

datatype InvokeFunc = FnCreate | FnGet | FnUpdate | FnSet | FnDestroy

record TestEngine =
  rdgen :: RandomGen
  recStore :: RecordStore
  reqSequence :: RequestSequence
  invokeFuncs :: "InvokeFunc option list"
  stats :: Statistics
  movingStats :: Statistics
  numReqPerSecond :: int

subsection \<open>Durations\<close>

text \<open>\<open>Time.Sub\<close> saturates at the largest and smallest \<open>Duration\<close>.\<close>

definition time_Sub :: "int \<Rightarrow> int \<Rightarrow> int" where
  "time_Sub t u = max (- (2 ^ 63)) (min (2 ^ 63 - 1) (t - u))"

text \<open>Go's integer quotient rounds towards zero.\<close>

definition go_quot :: "int \<Rightarrow> int \<Rightarrow> int" where
  "go_quot a b = (if (a < 0) = (b < 0) then \<bar>a\<bar> div \<bar>b\<bar> else - (\<bar>a\<bar> div \<bar>b\<bar>))"

definition time_Second :: int where
  "time_Second = 1000000000"

subsection \<open>Rate control\<close>

text \<open>The body shared by \<open>checkSpeedDelayIfNeeded\<close> and \<open>checkSpeedForVariableTp\<close> after
  the request count and the start time have been read.\<close>

definition checkSpeed :: "int \<Rightarrow> int \<Rightarrow> int \<Rightarrow> int \<Rightarrow> World \<Rightarrow> Fatal + World" where
  "checkSpeed rps num now start w =
     (if num < 10 then Inr w
      else if rps = 0 then Inl PanicDivideByZero
      else
        (let expectedDur = go_quot (1 * time_Second) rps;
             expectedDur' = wrap64 (expectedDur * num);
             dur = time_Sub now start;
             delta = wrap64 (expectedDur' - dur)
         in if delta > 0 then Inr (w\<lparr>sleeps := sleeps w @ [delta]\<rparr>) else Inr w))"

definition checkSpeedDelayIfNeeded :: "TestEngine \<Rightarrow> int \<Rightarrow> World \<Rightarrow> Fatal + World" where
  "checkSpeedDelayIfNeeded e now w =
     checkSpeed (numReqPerSecond e) (GetNumRequests (stats e)) now (tmStart (stats e)) w"

definition checkSpeedForVariableTp :: "TestEngine \<Rightarrow> int \<Rightarrow> int \<Rightarrow> int \<Rightarrow> World \<Rightarrow> Fatal + World" where
  "checkSpeedForVariableTp e now numReq startTime w =
     checkSpeed (numReqPerSecond e) numReq now startTime w"

subsection \<open>Handlers and dispatch\<close>

definition invokeCreate :: "TestEngine \<Rightarrow> World \<Rightarrow> (Fatal + (string option \<times> TestEngine \<times> World)) option" where
  "invokeCreate e w =
     (if numKeys (recStore e) > 0 then Some (Inr (None, e, w))
      else
        (case newTestKey w of
           (k, w1) \<Rightarrow>
             (case client_call (CallCreate k) w1 of
                ((c, err), w2) \<Rightarrow>
                  if err = None
                  then Some (Inr (err, e\<lparr>recStore := Add (recStore e) \<lparr>key = k, ctx = c\<rparr>\<rparr>, w2))
                  else Some (Inr (err, e, w2)))))"

text \<open>\<open>invokeGet\<close>, \<open>invokeUpdate\<close> and \<open>invokeSet\<close> differ in the client method only.\<close>

definition invokeWithGet :: "(8 word list \<Rightarrow> ClientCall) \<Rightarrow> TestEngine \<Rightarrow> World \<Rightarrow> (Fatal + (string option \<times> TestEngine \<times> World)) option" where
  "invokeWithGet call e w =
     (case Get (recStore e) w of
        None \<Rightarrow> None
      | Some (Inl f) \<Rightarrow> Some (Inl f)
      | Some (Inr ((rec, err), s', w1)) \<Rightarrow>
          if err = None
          then (case client_call (call (key rec)) w1 of
                  ((c, err'), w2) \<Rightarrow> Some (Inr (err', e\<lparr>recStore := s'\<rparr>, w2)))
          else Some (Inr (err, e\<lparr>recStore := s'\<rparr>, w1)))"

definition invokeGet :: "TestEngine \<Rightarrow> World \<Rightarrow> (Fatal + (string option \<times> TestEngine \<times> World)) option" where
  "invokeGet = invokeWithGet CallGet"

definition invokeUpdate :: "TestEngine \<Rightarrow> World \<Rightarrow> (Fatal + (string option \<times> TestEngine \<times> World)) option" where
  "invokeUpdate = invokeWithGet CallUpdate"

definition invokeSet :: "TestEngine \<Rightarrow> World \<Rightarrow> (Fatal + (string option \<times> TestEngine \<times> World)) option" where
  "invokeSet = invokeWithGet CallSet"

definition invokeDestroy :: "TestEngine \<Rightarrow> World \<Rightarrow> (Fatal + (string option \<times> TestEngine \<times> World)) option" where
  "invokeDestroy e w =
     (if endOfDelete (recStore e) then Some (Inr (None, e, w))
      else
        (case Take (recStore e) w of
           None \<Rightarrow> None
         | Some (Inl f) \<Rightarrow> Some (Inl f)
         | Some (Inr ((rec, err), s', w1)) \<Rightarrow>
             if err = None
             then (case client_call (CallDestroy (key rec)) w1 of
                     ((c, err'), w2) \<Rightarrow> Some (Inr (err', e\<lparr>recStore := s'\<rparr>, w2)))
             else Some (Inr (err, e\<lparr>recStore := s'\<rparr>, w1))))"

definition Init :: "TestEngine \<Rightarrow> TestEngine" where
  "Init e =
     e\<lparr>invokeFuncs :=
         (replicate (unat kNumRequestTypes) None)
           [unat kRequestTypeCreate := Some FnCreate,
            unat kRequestTypeGet := Some FnGet,
            unat kRequestTypeUpdate := Some FnUpdate,
            unat kRequestTypeSet := Some FnSet,
            unat kRequestTypeDestroy := Some FnDestroy]\<rparr>"

fun call_func :: "InvokeFunc \<Rightarrow> TestEngine \<Rightarrow> World \<Rightarrow> (Fatal + (string option \<times> TestEngine \<times> World)) option" where
  "call_func FnCreate = invokeCreate"
| "call_func FnGet = invokeGet"
| "call_func FnUpdate = invokeUpdate"
| "call_func FnSet = invokeSet"
| "call_func FnDestroy = invokeDestroy"

text \<open>\<open>glog.Exitf\<close> ends the process; an index at or beyond the length of
  \<open>invokeFuncs\<close> is a run-time panic.\<close>

definition invoke :: "TestEngine \<Rightarrow> RequestType \<Rightarrow> World \<Rightarrow> (Fatal + (string option \<times> TestEngine \<times> World)) option" where
  "invoke e t w =
     (if t > kNumRequestTypes then Some (Inl ExitUnsupportedType)
      else if unat t \<ge> length (invokeFuncs e) then Some (Inl PanicIndexOutOfRange)
      else
        (case invokeFuncs e ! unat t of
           Some f \<Rightarrow> call_func f e w
         | None \<Rightarrow> Some (Inr (None, e, w))))"

subsection \<open>Restoration\<close>

text \<open>The loop \<open>for i := 0; i < count; i++\<close> of \<open>restoreData\<close>. A failed create is logged
  and the loop goes on.\<close>

function restoreData_loop :: "int \<Rightarrow> int \<Rightarrow> TestEngine \<Rightarrow> World \<Rightarrow> TestEngine \<times> World" where
  "restoreData_loop i count e w =
     (if i < count then
        (case time_Now w of
           (now, w1) \<Rightarrow>
             (case client_call (CallCreate (NewRandomKey (offsetDel (recStore e) + i))) w1 of
                ((c, err), w2) \<Rightarrow>
                  (case time_Now w2 of
                     (t, w3) \<Rightarrow>
                       (let tm = time_Sub t now;
                            e1 = e\<lparr>stats := Put (stats e) kRequestTypeCreate tm err\<rparr>;
                            e2 = e1\<lparr>movingStats := Put (movingStats e1) kRequestTypeCreate tm err\<rparr>
                        in restoreData_loop (i + 1) count e2 w3))))
      else (e, w))"
  by pat_completeness auto
termination
  by (relation "measure (\<lambda>(i, count, e, w). nat (count - i))") auto

definition restoreData :: "TestEngine \<Rightarrow> World \<Rightarrow> TestEngine \<times> World" where
  "restoreData e w =
     (if numKeys (recStore e) \<le> 0 \<or> nextDelete (recStore e) \<le> 0 then (e, w)
      else restoreData_loop 0 (nextDelete (recStore e)) e w)"

subsection \<open>Run\<close>

text \<open>The locals of \<open>Run\<close>.\<close>

record RunLocals =
  startTime :: int
  numreq :: int
  errCount :: int

type_synonym RunState = "RunLocals \<times> TestEngine \<times> World"

text \<open>The two \<open>return\<close> statements of \<open>Run\<close>: after a receive on \<open>chDone\<close>, and when
  \<open>errCount > 100\<close>.\<close>

datatype RunExit = ExitDone | ExitErrors

datatype Step = Returned RunExit RunState | Next RunState

text \<open>The end of the \<open>default\<close> branch: the throughput window and the delay.\<close>

definition Run_pace :: "int \<Rightarrow> RunState \<Rightarrow> Fatal + RunState" where
  "Run_pace now st =
     (case st of
        (l, e, w) \<Rightarrow>
          (let diff = time_Sub now (startTime l);
               (l1, e1, w1) =
                 (if isVariable (rdgen e) \<and> diff > 12 * time_Second then
                    (case time_Now (w\<lparr>tp_pos := Suc (tp_pos w)\<rparr>) of
                       (t, w') \<Rightarrow>
                         (l\<lparr>startTime := t, numreq := 0\<rparr>,
                          e\<lparr>numReqPerSecond := getThroughPut w (tp_pos w)\<rparr>, w'))
                  else (l, e, w));
               l2 = l1\<lparr>numreq := numreq l1 + 1\<rparr>
           in case (if isVariable (rdgen e1)
                    then checkSpeedForVariableTp e1 now (numreq l2) (startTime l2) w1
                    else checkSpeedDelayIfNeeded e1 now w1) of
                Inl f \<Rightarrow> Inl f
              | Inr w2 \<Rightarrow> Inr (l2, e1, w2)))"

text \<open>The \<open>default\<close> branch of the \<open>select\<close> after \<open>invoke\<close> has returned \<open>err\<close>:
  the elapsed time, the delete that is not counted, the statistics, the error count and
  the pacing. \<open>now\<close> is the time read before the operation.\<close>

definition Run_account :: "RequestItem \<Rightarrow> int \<Rightarrow> string option \<Rightarrow> RunState \<Rightarrow> Fatal + Step" where
  "Run_account item now err st =
     (case st of
        (l, e2, w2) \<Rightarrow>
          (case time_Now w2 of
             (t, w3) \<Rightarrow>
               (let tm = time_Sub t now;
                    skip = (reqType item = kRequestTypeDestroy \<and> endOfDelete (recStore e2)
                            \<and> \<not> LastDelete (recStore e2));
                    e3 = (if reqType item = kRequestTypeDestroy \<and> endOfDelete (recStore e2)
                             \<and> LastDelete (recStore e2)
                          then e2\<lparr>recStore := (recStore e2)\<lparr>LastDelete := False\<rparr>\<rparr>
                          else e2);
                    e4 = e3\<lparr>stats := Put (stats e3) (reqType item) tm err\<rparr>;
                    e5 = e4\<lparr>movingStats := Put (movingStats e4) (reqType item) tm err\<rparr>;
                    l1 = (if err \<noteq> None \<and> numKeys (recStore e5) > 0
                          then l\<lparr>errCount := errCount l + 1\<rparr> else l)
                in if skip then Inr (Next (l, e2, w3))
                   else if err \<noteq> None \<and> numKeys (recStore e5) > 0 \<and> errCount l1 > 100
                   then Inr (Returned ExitErrors (l1, e5, w3))
                   else (case Run_pace now (l1, e5, w3) of
                           Inl f \<Rightarrow> Inl f
                         | Inr st' \<Rightarrow> Inr (Next st')))))"

text \<open>The \<open>default\<close> branch of the \<open>select\<close>: one operation and its bookkeeping.\<close>

definition Run_default :: "RequestItem \<Rightarrow> RunState \<Rightarrow> (Fatal + Step) option" where
  "Run_default item st =
     (case st of
        (l, e, w) \<Rightarrow>
          (case time_Now w of
             (now, w1) \<Rightarrow>
               (case invoke e (reqType item) w1 of
                  None \<Rightarrow> None
                | Some (Inl f) \<Rightarrow> Some (Inl f)
                | Some (Inr (err, e2, w2)) \<Rightarrow> Some (Run_account item now err (l, e2, w2)))))"

text \<open>The \<open>select\<close>: a receive on \<open>chDone\<close> leaves the loops; \<open>restoreData\<close> is then run
  by \<open>Run\<close> below.\<close>

definition Run_select :: "RequestItem \<Rightarrow> RunState \<Rightarrow> (Fatal + Step) option" where
  "Run_select item st =
     (case st of
        (l, e, w) \<Rightarrow>
          (if chDone w (done_pos w)
           then Some (Inr (Returned ExitDone (l, e, w\<lparr>done_pos := Suc (done_pos w)\<rparr>)))
           else Run_default item (l, e, w\<lparr>done_pos := Suc (done_pos w)\<rparr>)))"

text \<open>\<open>for i := 0; i < item.numRequests; i++\<close>\<close>

function Run_requests :: "RequestItem \<Rightarrow> int \<Rightarrow> RunState \<Rightarrow> (Fatal + Step) option" where
  "Run_requests item i st =
     (if i < numRequests item then
        (case Run_select item st of
           None \<Rightarrow> None
         | Some (Inl f) \<Rightarrow> Some (Inl f)
         | Some (Inr (Returned x st')) \<Rightarrow> Some (Inr (Returned x st'))
         | Some (Inr (Next st')) \<Rightarrow> Run_requests item (i + 1) st')
      else Some (Inr (Next st)))"
  by pat_completeness auto
termination
  by (relation "measure (\<lambda>(item, i, st). nat (numRequests item - i))") auto

text \<open>\<open>for _, item := range e.reqSequence.items\<close>: a create item is passed over when
  the store is preloaded.\<close>

fun Run_items :: "RequestItem list \<Rightarrow> RunState \<Rightarrow> (Fatal + Step) option" where
  "Run_items [] st = Some (Inr (Next st))"
| "Run_items (item # rest) st =
     (if numKeys (recStore (fst (snd st))) > 0 \<and> reqType item = kRequestTypeCreate
      then Run_items rest st
      else
        (case Run_requests item 0 st of
           None \<Rightarrow> None
         | Some (Inl f) \<Rightarrow> Some (Inl f)
         | Some (Inr (Returned x st')) \<Rightarrow> Some (Inr (Returned x st'))
         | Some (Inr (Next st')) \<Rightarrow> Run_items rest st'))"

text \<open>The outer \<open>for { ... }\<close>. It has no exit of its own: a run that is never stopped
  does not return.\<close>

partial_function (option) Run_loop :: "RunState \<Rightarrow> (Fatal + (RunExit \<times> RunState)) option" where
  "Run_loop st =
     (case Run_items (items (reqSequence (fst (snd st)))) st of
        None \<Rightarrow> None
      | Some (Inl f) \<Rightarrow> Some (Inl f)
      | Some (Inr (Returned x st')) \<Rightarrow> Some (Inr (x, st'))
      | Some (Inr (Next st')) \<Rightarrow> Run_loop st')"

declare Run_loop.simps [code]

definition Run :: "TestEngine \<Rightarrow> World \<Rightarrow> (Fatal + (RunExit \<times> RunState)) option" where
  "Run e w =
     (case time_Now w of
        (t, w0) \<Rightarrow>
          (case Run_loop (\<lparr>startTime = t, numreq = 0, errCount = 0\<rparr>, e, w0) of
             None \<Rightarrow> None
           | Some (Inl f) \<Rightarrow> Some (Inl f)
           | Some (Inr (ExitErrors, st)) \<Rightarrow> Some (Inr (ExitErrors, st))
           | Some (Inr (ExitDone, (l, e', w'))) \<Rightarrow>
               (case restoreData e' w' of
                  (e'', w'') \<Rightarrow> Some (Inr (ExitDone, (l, e'', w''))))))"

subsection \<open>Callers used to state the properties\<close>

text \<open>\<open>n\<close> successive calls of \<open>Take\<close>, with what each returned.\<close>

fun Take_repeat :: "nat \<Rightarrow> RecordStore \<Rightarrow> World \<Rightarrow> (Fatal + ((Record \<times> string option) list \<times> RecordStore \<times> World)) option" where
  "Take_repeat 0 s w = Some (Inr ([], s, w))"
| "Take_repeat (Suc n) s w =
     (case Take s w of
        None \<Rightarrow> None
      | Some (Inl f) \<Rightarrow> Some (Inl f)
      | Some (Inr (r, s', w')) \<Rightarrow>
          (case Take_repeat n s' w' of
             None \<Rightarrow> None
           | Some (Inl f) \<Rightarrow> Some (Inl f)
           | Some (Inr (rs, s'', w'')) \<Rightarrow> Some (Inr (r # rs, s'', w''))))"

text \<open>What the \<open>i\<close>-th of successive \<open>Take\<close> calls returns on a preloaded store whose
  delete cursor stood at \<open>d\<close> before the first of them.\<close>

definition nth_take :: "RecordStore \<Rightarrow> int \<Rightarrow> nat \<Rightarrow> Record \<times> string option" where
  "nth_take s d i =
     (if d + int i < min (numKeys s) MaxDeletes
      then (\<lparr>key = NewRandomKey (offsetDel s + d + int i), ctx = None\<rparr>, None)
      else (zeroRecord, Some ''no unexpired record''))"

text \<open>A sequence of \<open>Add\<close>, \<open>Get\<close> and \<open>Take\<close> calls on one store.\<close>

datatype StoreOp = OpAdd Record | OpGet | OpTake

fun store_op :: "StoreOp \<Rightarrow> RecordStore \<Rightarrow> World \<Rightarrow> (Fatal + (RecordStore \<times> World)) option" where
  "store_op (OpAdd r) s w = Some (Inr (Add s r, w))"
| "store_op OpGet s w =
     (case Get s w of
        None \<Rightarrow> None
      | Some (Inl f) \<Rightarrow> Some (Inl f)
      | Some (Inr (r, s', w')) \<Rightarrow> Some (Inr (s', w')))"
| "store_op OpTake s w =
     (case Take s w of
        None \<Rightarrow> None
      | Some (Inl f) \<Rightarrow> Some (Inl f)
      | Some (Inr (r, s', w')) \<Rightarrow> Some (Inr (s', w')))"

fun store_ops :: "StoreOp list \<Rightarrow> RecordStore \<Rightarrow> World \<Rightarrow> (Fatal + (RecordStore \<times> World)) option" where
  "store_ops [] s w = Some (Inr (s, w))"
| "store_ops (x # xs) s w =
     (case store_op x s w of
        None \<Rightarrow> None
      | Some (Inl f) \<Rightarrow> Some (Inl f)
      | Some (Inr (s', w')) \<Rightarrow> store_ops xs s' w')"

text \<open>The bound on the delete cursor of a preloaded store.\<close>

definition store_inv :: "RecordStore \<Rightarrow> bool" where
  "store_inv s \<longleftrightarrow> numKeys s > 0 \<and> 0 \<le> nextDelete s \<and> nextDelete s \<le> min (numKeys s) MaxDeletes"

subsection \<open>Observations on a run\<close>

text \<open>The create calls among the client calls, and the failures among the recorded
  samples.\<close>

fun isCreate :: "ClientCall \<Rightarrow> bool" where
  "isCreate (CallCreate k) = True"
| "isCreate _ = False"

definition creates :: "World \<Rightarrow> ClientCall list" where
  "creates w = filter isCreate (client_calls w)"

definition failures :: "Statistics \<Rightarrow> nat" where
  "failures st = length (filter (\<lambda>x. snd (snd x) \<noteq> None) (samples st))"

text \<open>The parts of the world the engine only reads.\<close>

definition same_env :: "World \<Rightarrow> World \<Rightarrow> bool" where
  "same_env w w' \<longleftrightarrow> client_resp w' = client_resp w \<and> chDone w' = chDone w \<and> getThroughPut w' = getThroughPut w"

text \<open>What a handler may change on a preloaded store.\<close>

definition handler_effect :: "TestEngine \<Rightarrow> World \<Rightarrow> TestEngine \<Rightarrow> World \<Rightarrow> bool" where
  "handler_effect e w e' w' \<longleftrightarrow>
     stats e' = stats e \<and> reqSequence e' = reqSequence e \<and> invokeFuncs e' = invokeFuncs e
     \<and> rdgen e' = rdgen e \<and> numReqPerSecond e' = numReqPerSecond e
     \<and> numKeys (recStore e') = numKeys (recStore e)
     \<and> creates w' = creates w \<and> same_env w w'
     \<and> length (client_calls w) \<le> length (client_calls w')"

text \<open>How the state of \<open>Run\<close> may change while the loops run on a preloaded store:
  the recorded failures grow with \<open>errCount\<close>, and no create is issued.\<close>

definition run_rel :: "RunState \<Rightarrow> RunState \<Rightarrow> bool" where
  "run_rel st st' \<longleftrightarrow>
     (case st of (l, e, w) \<Rightarrow> case st' of (l', e', w') \<Rightarrow>
        numKeys (recStore e') = numKeys (recStore e)
        \<and> int (failures (stats e')) - errCount l' = int (failures (stats e)) - errCount l
        \<and> creates w' = creates w \<and> same_env w w' \<and> errCount l \<le> errCount l'
        \<and> reqSequence e' = reqSequence e \<and> invokeFuncs e' = invokeFuncs e \<and> rdgen e' = rdgen e
        \<and> length (client_calls w) \<le> length (client_calls w')
        \<and> (\<exists>ys. samples (stats e') = samples (stats e) @ ys))"

text \<open>The operation recorded last has failed.\<close>

definition last_failed :: "Statistics \<Rightarrow> bool" where
  "last_failed s \<longleftrightarrow> samples s \<noteq> [] \<and> snd (snd (last (samples s))) \<noteq> None"

fun step_ok :: "RunState \<Rightarrow> Step \<Rightarrow> bool" where
  "step_ok st (Next st') \<longleftrightarrow> run_rel st st' \<and> errCount (fst st') \<le> 100"
| "step_ok st (Returned ExitErrors st') \<longleftrightarrow>
     run_rel st st' \<and> errCount (fst st') = 101 \<and> last_failed (stats (fst (snd st')))"
| "step_ok st (Returned ExitDone st') \<longleftrightarrow> run_rel st st' \<and> errCount (fst st') \<le> 100"

text \<open>An item whose operations read a key and call the client: get, update, set.\<close>

definition reads_item :: "RequestItem \<Rightarrow> bool" where
  "reads_item item \<longleftrightarrow>
     reqType item = kRequestTypeGet \<or> reqType item = kRequestTypeUpdate \<or> reqType item = kRequestTypeSet"

text \<open>The number of client calls with an index in \<open>[a, b)\<close> whose response is an error.\<close>

definition failing :: "World \<Rightarrow> nat \<Rightarrow> nat \<Rightarrow> nat" where
  "failing w a b = length (filter (\<lambda>n. snd (client_resp w n) \<noteq> None) [a..<b])"

text \<open>A run that only the error count can end: a preloaded store, the dispatch table of
  \<open>Init\<close>, known request types, a non-zero rate and no receive on the done channel.\<close>

definition run_inv :: "RunState \<Rightarrow> bool" where
  "run_inv st \<longleftrightarrow>
     (case st of (l, e, w) \<Rightarrow>
        numKeys (recStore e) > 0
        \<and> invokeFuncs e = [Some FnCreate, Some FnGet, Some FnUpdate, Some FnSet, Some FnDestroy]
        \<and> (\<forall>n. \<not> chDone w n)
        \<and> numReqPerSecond e \<noteq> 0
        \<and> (isVariable (rdgen e) \<longrightarrow> (\<forall>n. getThroughPut w n \<noteq> 0))
        \<and> (\<forall>item \<in> set (items (reqSequence e)). reqType item < kNumRequestTypes)
        \<and> errCount l \<le> 100)"

text \<open>Such a run in which the responses to the client calls still to come, up to call
  \<open>H\<close>, hold enough errors to take \<open>errCount\<close> past 100. Successful responses may lie
  anywhere between them.\<close>

definition live_inv :: "nat \<Rightarrow> RunState \<Rightarrow> bool" where
  "live_inv H st \<longleftrightarrow>
     run_inv st
     \<and> (case st of (l, e, w) \<Rightarrow> 101 - errCount l \<le> int (failing w (length (client_calls w)) H))"

text \<open>A client whose calls all fail from now on.\<close>

definition always_fails :: "World \<Rightarrow> bool" where
  "always_fails w \<longleftrightarrow> (\<forall>n \<ge> length (client_calls w). snd (client_resp w n) \<noteq> None)"

text \<open>A step of such a run: it keeps the invariant and, when \<open>c\<close> holds, has called the
  client; or it returns because of the error count.\<close>

fun live_step :: "nat \<Rightarrow> RunState \<Rightarrow> Step \<Rightarrow> bool \<Rightarrow> bool" where
  "live_step H st (Next st') c \<longleftrightarrow>
     step_ok st (Next st') \<and> live_inv H st'
     \<and> (c \<longrightarrow> length (client_calls (snd (snd st'))) > length (client_calls (snd (snd st))))"
| "live_step H st (Returned x st') c \<longleftrightarrow> step_ok st (Returned x st') \<and> x = ExitErrors"

subsection \<open>Example inputs\<close>

definition store0 :: RecordStore where
  "store0 = \<lparr>records = [], numKeys = 3, currGet = 0, nextDelete = 0, offsetDel = 7, offsetGet = 0, LastDelete = False\<rparr>"

definition world0 :: World where
  "world0 = \<lparr>rand_src = (\<lambda>n. n), rand_pos = 0, clock = (\<lambda>n. int n), clock_pos = 0,
              uuid_src = (\<lambda>n i. 0), uuid_pos = 0, client_resp = (\<lambda>n. (None, None)), client_calls = [],
              chDone = (\<lambda>n. False), done_pos = 0, getThroughPut = (\<lambda>n. 1), tp_pos = 0, sleeps = [],
              float_term = (\<lambda>n m. 0)\<rparr>"

definition engine0 :: TestEngine where
  "engine0 = Init \<lparr>rdgen = \<lparr>isVariable = False, disableGetTTL = False\<rparr>,
                    recStore = store0,
                    reqSequence = \<lparr>items = [\<lparr>reqType = kRequestTypeGet, numRequests = 1\<rparr>]\<rparr>,
                    invokeFuncs = [],
                    stats = \<lparr>samples = [], tmStart = 0\<rparr>,
                    movingStats = \<lparr>samples = [], tmStart = 0\<rparr>,
                    numReqPerSecond = 1000\<rparr>"

definition store_dyn :: RecordStore where
  "store_dyn = \<lparr>records = [\<lparr>key = [1], ctx = Some \<lparr>GetCreationTime = 0, GetTimeToLive = 0\<rparr>\<rparr>,
                           \<lparr>key = [2], ctx = Some \<lparr>GetCreationTime = 0, GetTimeToLive = 0\<rparr>\<rparr>],
                numKeys = 0, currGet = 0, nextDelete = 0, offsetDel = 0, offsetGet = 0, LastDelete = False\<rparr>"

definition world_late :: World where
  "world_late = world0\<lparr>clock := (\<lambda>n. 5000000000)\<rparr>"

definition store_10000 :: RecordStore where
  "store_10000 = \<lparr>records = [], numKeys = 10000, currGet = 0, nextDelete = 0, offsetDel = 0, offsetGet = 0, LastDelete = False\<rparr>"

text \<open>A client that succeeds on its second and third call and fails on every other.\<close>

definition world_two_ok :: World where
  "world_two_ok = world0\<lparr>client_resp := (\<lambda>n. (None, if n = 1 \<or> n = 2 then None else Some ''fail''))\<rparr>"

definition world_fsf :: World where
  "world_fsf = world0\<lparr>client_resp := (\<lambda>n. (None, if n = 1 then None else Some ''fail''))\<rparr>"

definition engine_ten :: "int \<Rightarrow> TestEngine" where
  "engine_ten rps =
     engine0\<lparr>stats := \<lparr>samples = replicate 10 (kRequestTypeGet, 0, None), tmStart = 0\<rparr>,
             numReqPerSecond := rps\<rparr>"

text \<open>A world in which every raw draw is \<open>2^53 - 1\<close> and the float64 term is computed by
  \<open>f64_term\<close> from a \<open>math.Log\<close> that returns 36.75 (\<open>ln (2^53)\<close> is about 36.74).\<close>

definition world_log :: World where
  "world_log = world0\<lparr>rand_src := (\<lambda>_. 2 ^ 53 - 1),
                 float_term := (\<lambda>n m. case f64_term (\<lambda>x. 147 / 4) n m of Some t \<Rightarrow> t | None \<Rightarrow> 0)\<rparr>"

subsection \<open>What the specification describes\<close>

text \<open>The specification's skew transform \<open>n - 1 - floor(n * ln(m) / ln(n+1))\<close>, over the
  real numbers.\<close>

definition sampleSkewed_spec :: "int \<Rightarrow> int \<Rightarrow> int" where
  "sampleSkewed_spec n m = n - 1 - \<lfloor>real_of_int n * ln (real_of_int m) / ln (real_of_int (n + 1))\<rfloor>"


text \<open>The specification's consecutive-error counter over the errors recorded so far, oldest
  first: a failed operation increments it and a successful one resets it.\<close>

definition consecutive_errors :: "string option list \<Rightarrow> nat" where
  "consecutive_errors errs = fold (\<lambda>err c. if err \<noteq> None then Suc c else 0) errs 0"

declare restoreData_loop.simps [simp del]

declare Run_requests.simps [simp del]

section \<open>Properties\<close>

subsection \<open>Keys\<close>

lemma be_inj: 
  fixes v u :: "32 word"
  assumes "(ucast (drop_bit 24 v) :: 8 word) = ucast (drop_bit 24 u)"
     "(ucast (drop_bit 16 v) :: 8 word) = ucast (drop_bit 16 u)"
     "(ucast (drop_bit 8 v) :: 8 word) = ucast (drop_bit 8 u)"
     "(ucast v :: 8 word) = ucast u"
  shows "v = u"
proof (rule bit_word_eqI)
  fix n assume n: "n < LENGTH(32)"
  have b: "\<And>k m. m < 8 \<Longrightarrow> bit (ucast (drop_bit k v) :: 8 word) m = bit v (k + m)"
    by (simp add: bit_simps)
  have b': "\<And>k m. m < 8 \<Longrightarrow> bit (ucast (drop_bit k u) :: 8 word) m = bit u (k + m)"
    by (simp add: bit_simps)
  consider "n < 8" | "8 \<le> n" "n < 16" | "16 \<le> n" "n < 24" | "24 \<le> n" "n < 32" using n by force
  then show "bit v n = bit u n"
  proof cases
    case 1
    have "bit (ucast v :: 8 word) n = bit (ucast u :: 8 word) n" using assms(4) by simp
    then show ?thesis using 1 by (simp add: bit_simps)
  next
    case 2
    have "bit (ucast (drop_bit 8 v) :: 8 word) (n - 8) = bit (ucast (drop_bit 8 u) :: 8 word) (n - 8)" using assms(3) by simp
    then show ?thesis using 2 b[of "n - 8" 8] b'[of "n - 8" 8] by simp
  next
    case 3
    have "bit (ucast (drop_bit 16 v) :: 8 word) (n - 16) = bit (ucast (drop_bit 16 u) :: 8 word) (n - 16)" using assms(2) by simp
    then show ?thesis using 3 b[of "n - 16" 16] b'[of "n - 16" 16] by simp
  next
    case 4
    have "bit (ucast (drop_bit 24 v) :: 8 word) (n - 24) = bit (ucast (drop_bit 24 u) :: 8 word) (n - 24)" using assms(1) by simp
    then show ?thesis using 4 b[of "n - 24" 24] b'[of "n - 24" 24] by simp
  qed
qed

lemma NewRandomKey_index_bytes:
  "NewRandomKey s ! 4 = ucast (drop_bit 24 (word_of_int s :: 32 word))"
  "NewRandomKey s ! 5 = ucast (drop_bit 16 (word_of_int s :: 32 word))"
  "NewRandomKey s ! 6 = ucast (drop_bit 8 (word_of_int s :: 32 word))"
  "NewRandomKey s ! 7 = ucast (word_of_int s :: 32 word)"
  by (simp_all add: NewRandomKey_def PutUint32_def Let_def)

lemma NewRandomKey_length: "length (NewRandomKey s) = 16"
  by (simp add: NewRandomKey_def PutUint32_def Let_def)

subsection \<open>RecordStore on a preloaded range\<close>

lemma isExpired_no_ctx: "ctx r = None \<Longrightarrow> isExpired r w = (False, w)"
  by (simp add: isExpired_def)

lemma Take_preloaded:
  assumes "numKeys s > 0" "\<not> endOfDelete s"
  shows "Take s w = Some (Inr ((\<lparr>key = NewRandomKey (offsetDel s + nextDelete s), ctx = None\<rparr>, None),
            (if endOfDelete (s\<lparr>nextDelete := nextDelete s + 1\<rparr>)
             then s\<lparr>nextDelete := nextDelete s + 1, LastDelete := True\<rparr>
             else s\<lparr>nextDelete := nextDelete s + 1\<rparr>), w))"
  using assms
  by (simp add: Take_def Take_loop.simps [of _ s w] empty_def takeRecord_def isExpired_no_ctx)

lemma Take_exhausted:
  assumes "endOfDelete s"
  shows "Take s w = Some (Inr ((zeroRecord, Some ''no unexpired record''), s, w))"
  using assms by (simp add: Take_def Take_loop.simps [of _ s w])

lemma map_upt_Suc_shift: "map f [0..<Suc n] = f 0 # map (\<lambda>i. f (Suc i)) [0..<n]"
  by (simp only: map_Suc_upt [symmetric] upt_conv_Cons [OF zero_less_Suc] list.map map_map o_def)

lemma Take_repeat_preloaded:
  assumes "numKeys s > 0" "0 \<le> nextDelete s" "nextDelete s \<le> min (numKeys s) MaxDeletes"
  shows "Take_repeat n s w =
     Some (Inr (map (nth_take s (nextDelete s)) [0..<n],
                s\<lparr>nextDelete := min (nextDelete s + int n) (min (numKeys s) MaxDeletes),
                  LastDelete := (LastDelete s \<or> (nextDelete s < min (numKeys s) MaxDeletes \<and> min (numKeys s) MaxDeletes \<le> nextDelete s + int n))\<rparr>, w))"
  using assms
proof (induction n arbitrary: s)
  case 0
  have "(LastDelete s \<or> (nextDelete s < min (numKeys s) MaxDeletes \<and> min (numKeys s) MaxDeletes \<le> nextDelete s + int 0)) = LastDelete s"
    by linarith
  moreover have "min (nextDelete s + int 0) (min (numKeys s) MaxDeletes) = nextDelete s"
    using 0 by linarith
  ultimately show ?case by (simp del: min_less_iff_conj)
next
  case (Suc n)
  define B where "B = min (numKeys s) MaxDeletes"
  define d where "d = nextDelete s"
  have eod: "endOfDelete s \<longleftrightarrow> B \<le> d" using Suc.prems
    by (auto simp: endOfDelete_def B_def d_def)
  show ?case
  proof (cases "endOfDelete s")
    case True
    then have dB: "d = B" using Suc.prems eod by (simp add: B_def d_def)
    have e: "nth_take s (nextDelete s) i = (zeroRecord, Some ''no unexpired record'')" for i
      using dB by (simp add: nth_take_def B_def d_def)
    have f: "min (nextDelete s + int (Suc n)) (min (numKeys s) MaxDeletes) = min (nextDelete s + int n) (min (numKeys s) MaxDeletes)"
      using dB unfolding B_def d_def by linarith
    have g: "(nextDelete s < min (numKeys s) MaxDeletes \<and> min (numKeys s) MaxDeletes \<le> nextDelete s + int (Suc n))
           = (nextDelete s < min (numKeys s) MaxDeletes \<and> min (numKeys s) MaxDeletes \<le> nextDelete s + int n)"
      using dB unfolding B_def d_def by linarith
    have ih: "Take_repeat n s w = Some (Inr (map (nth_take s (nextDelete s)) [0..<n],
                s\<lparr>nextDelete := min (nextDelete s + int n) (min (numKeys s) MaxDeletes),
                  LastDelete := (LastDelete s \<or> (nextDelete s < min (numKeys s) MaxDeletes \<and> min (numKeys s) MaxDeletes \<le> nextDelete s + int n))\<rparr>, w))"
      by (rule Suc.IH [OF Suc.prems])
    show ?thesis
      apply (subst Take_repeat.simps)
      apply (subst Take_exhausted [OF True])
      apply (subst map_upt_Suc_shift)
      apply (subst f)
      apply (subst g)
      apply (simp only: ih option.case sum.case prod.case)
      apply (simp only: e [abs_def])
      done
  next
    case False
    then have dB: "d < B" using eod by simp
    let ?s1 = "s\<lparr>nextDelete := nextDelete s + 1\<rparr>"
    let ?s' = "(if endOfDelete ?s1 then s\<lparr>nextDelete := nextDelete s + 1, LastDelete := True\<rparr> else ?s1)"
    have p: "numKeys ?s' > 0" "0 \<le> nextDelete ?s'" "nextDelete ?s' \<le> min (numKeys ?s') MaxDeletes"
      using Suc.prems dB by (auto simp: B_def d_def)
    have e: "nth_take s (nextDelete s) (Suc i) = nth_take ?s' (nextDelete ?s') i" for i
      by (auto simp: nth_take_def ac_simps)
    have e0: "nth_take s (nextDelete s) 0 = (\<lparr>key = NewRandomKey (offsetDel s + nextDelete s), ctx = None\<rparr>, None)"
      using dB by (auto simp: nth_take_def B_def d_def)
    have eod1: "endOfDelete ?s1 \<longleftrightarrow> B \<le> d + 1" using Suc.prems
      by (auto simp: endOfDelete_def B_def d_def)
    have fin: "?s'\<lparr>nextDelete := min (nextDelete ?s' + int n) (min (numKeys ?s') MaxDeletes),
                  LastDelete := (LastDelete ?s' \<or> (nextDelete ?s' < min (numKeys ?s') MaxDeletes \<and> min (numKeys ?s') MaxDeletes \<le> nextDelete ?s' + int n))\<rparr>
       = s\<lparr>nextDelete := min (nextDelete s + int (Suc n)) (min (numKeys s) MaxDeletes),
                  LastDelete := (LastDelete s \<or> (nextDelete s < min (numKeys s) MaxDeletes \<and> min (numKeys s) MaxDeletes \<le> nextDelete s + int (Suc n)))\<rparr>"
    proof (cases "B \<le> d + 1")
      case True
      then show ?thesis using dB eod1 unfolding B_def d_def
        by (simp del: min_less_iff_conj add: add.assoc) 
    next
      case False
      then show ?thesis using dB eod1 unfolding B_def d_def
        by (simp del: min_less_iff_conj add: add.assoc)
    qed
    note ih = Suc.IH [OF p]
    show ?thesis
      apply (subst Take_repeat.simps)
      apply (subst Take_preloaded [OF Suc.prems(1) False])
      apply (subst map_upt_Suc_shift)
      apply (simp only: ih e e0 fin option.case sum.case prod.case)
      done
  qed
qed

lemma getRecord_count_pos: "numKeys s > 0 \<Longrightarrow> getRecord_count s > 0"
  by (auto simp add: getRecord_count_def drop_bit_eq_div MaxDeletes_def pos_imp_zdiv_pos_iff)

lemma Get_preloaded:
  assumes "numKeys s > 0"
  shows "Get s w =
     (let k = wrap64 (getRecord_count s - 1
                - float_term w (getRecord_count s) (int (rand_src w (rand_pos w)) mod getRecord_count s + 1))
      in Some (Inr ((\<lparr>key = NewRandomKey (offsetGet s + k), ctx = None\<rparr>, None), s\<lparr>currGet := k\<rparr>,
                    w\<lparr>rand_pos := Suc (rand_pos w)\<rparr>)))"
  using assms getRecord_count_pos [OF assms]
  by (simp add: Get_def Get_loop.simps [of _ s w] empty_def getRecord_def expRand_def rand_Intn_def Let_def)

lemma store_op_inv:
  assumes "store_inv s"
  shows "\<exists>s' w'. store_op x s w = Some (Inr (s', w')) \<and> store_inv s' \<and> numKeys s' = numKeys s"
proof (cases x)
  case (OpAdd r)
  then show ?thesis using assms by (simp add: Add_def store_inv_def)
next
  case OpGet
  obtain k w' where "Get s w = Some (Inr ((\<lparr>key = NewRandomKey (offsetGet s + k), ctx = None\<rparr>, None), s\<lparr>currGet := k\<rparr>, w'))"
    using Get_preloaded [of s w] assms by (simp add: store_inv_def Let_def)
  then show ?thesis using OpGet assms by (simp add: store_inv_def)
next
  case OpTake
  show ?thesis
  proof (cases "endOfDelete s")
    case True
    then show ?thesis using OpTake assms by (simp add: Take_exhausted)
  next
    case False
    have nk: "numKeys s > 0" using assms by (simp add: store_inv_def)
    show ?thesis using OpTake assms False
      by (auto simp add: Take_preloaded [OF nk False] store_inv_def endOfDelete_def)
  qed
qed

lemma store_ops_inv:
  assumes "store_inv s"
  shows "\<exists>s' w'. store_ops xs s w = Some (Inr (s', w')) \<and> store_inv s' \<and> numKeys s' = numKeys s"
  using assms
proof (induction xs arbitrary: s w)
  case Nil
  then show ?case by simp
next
  case (Cons x xs)
  obtain s1 w1 where 1: "store_op x s w = Some (Inr (s1, w1))" "store_inv s1" "numKeys s1 = numKeys s"
    using store_op_inv [OF Cons.prems] by blast
  obtain s2 w2 where 2: "store_ops xs s1 w1 = Some (Inr (s2, w2))" "store_inv s2" "numKeys s2 = numKeys s1"
    using Cons.IH [OF 1(2)] by blast
  show ?case using 1 2 by simp
qed

lemma Take_cursor:
  assumes "numKeys s > 0"
  shows "\<exists>r s' w'. Take s w = Some (Inr (r, s', w')) \<and>
           nextDelete s' = (if endOfDelete s then nextDelete s else nextDelete s + 1)"
proof (cases "endOfDelete s")
  case True
  then show ?thesis by (simp add: Take_exhausted)
next
  case False
  then show ?thesis by (simp add: Take_preloaded [OF assms False])
qed

subsection \<open>RecordStore on an explicit collection\<close>

lemma remove_at_length: "i < length xs \<Longrightarrow> length (remove_at i xs) = length xs - 1"
  by (simp add: remove_at_def)

lemma Take_loop_dynamic:
  assumes "numKeys s = 0"
  shows "\<exists>r err s' w'. Take_loop rec s w = Some (Inr ((r, err), s', w')) \<and> numKeys s' = 0 \<and>
           (err \<noteq> None \<longrightarrow> err = Some ''no unexpired record'' \<and> records s' = [])"
  using assms
proof (induction "length (records s)" arbitrary: s w rec)
  case 0
  then show ?case by (simp add: Take_loop.simps [of _ s w] empty_def)
next
  case (Suc n)
  let ?i = "int (rand_src w (rand_pos w)) mod int (length (records s))"
  let ?w1 = "w\<lparr>rand_pos := Suc (rand_pos w)\<rparr>"
  let ?s1 = "s\<lparr>records := remove_at (nat ?i) (records s)\<rparr>"
  let ?r = "records s ! nat ?i"
  have len: "length (records s) > 0" using Suc.hyps(2) by (cases "records s") auto
  have i: "nat ?i < length (records s)" using len by (simp add: nat_less_iff)
  have tr: "takeRecord s w = Inr ((?r, None), ?s1, ?w1)"
    using Suc.prems len by (simp add: takeRecord_def rand_Intn_def Let_def)
  have ne: "\<not> empty s" "\<not> endOfDelete s" using len Suc.prems by (simp_all add: empty_def endOfDelete_def)
  have l1: "n = length (records ?s1)" using Suc.hyps(2) i by (simp add: remove_at_length)
  have n1: "numKeys ?s1 = 0" using Suc.prems by simp
  obtain ex w2 where ex: "isExpired ?r ?w1 = (ex, w2)" by (cases "isExpired ?r ?w1")
  show ?case
  proof (cases ex)
    case True
    have "Take_loop rec s w = Take_loop ?r ?s1 w2"
      using ne tr ex True by (subst Take_loop.simps) simp
    then show ?thesis using Suc.hyps(1) [OF l1 n1, of ?r w2] by simp
  next
    case False
    have "Take_loop rec s w = Some (Inr ((?r, None), ?s1, w2))"
      using ne tr ex False n1 by (subst Take_loop.simps) (simp add: endOfDelete_def)
    then show ?thesis using n1 by simp
  qed
qed

subsection \<open>Restoration\<close>

lemma restoreData_loop_calls:
  assumes "0 \<le> i"
  shows "client_calls (snd (restoreData_loop i count e w)) =
           client_calls w @ map (\<lambda>j. CallCreate (NewRandomKey (offsetDel (recStore e) + int j))) [nat i..<nat count]"
  using assms
proof (induction "nat (count - i)" arbitrary: i e w)
  case 0
  then have "\<not> i < count" by simp
  then show ?case by (subst restoreData_loop.simps) simp
next
  case (Suc n)
  then have True: "i < count" by linarith
  have u: "[nat i..<nat count] = nat i # [nat (i + 1)..<nat count]"
  proof -
    have "nat i < nat count" using True Suc.prems by simp
    then have "[nat i..<nat count] = nat i # [Suc (nat i)..<nat count]" by (rule upt_conv_Cons)
    moreover have "Suc (nat i) = nat (i + 1)" using Suc.prems by simp
    ultimately show ?thesis by simp
  qed
  let ?w1 = "w\<lparr>clock_pos := Suc (clock_pos w)\<rparr>"
  let ?err = "snd (client_resp ?w1 (length (client_calls ?w1)))"
  let ?w2 = "?w1\<lparr>client_calls := client_calls ?w1 @ [CallCreate (NewRandomKey (offsetDel (recStore e) + i))]\<rparr>"
  let ?w3 = "?w2\<lparr>clock_pos := Suc (clock_pos ?w2)\<rparr>"
  let ?tm = "time_Sub (clock ?w2 (clock_pos ?w2)) (clock w (clock_pos w))"
  let ?e1 = "e\<lparr>stats := Put (stats e) kRequestTypeCreate ?tm ?err\<rparr>"
  let ?e2 = "?e1\<lparr>movingStats := Put (movingStats ?e1) kRequestTypeCreate ?tm ?err\<rparr>"
  have n: "n = nat (count - (i + 1))" using Suc.hyps(2) by linarith
  have i1: "0 \<le> i + 1" using Suc.prems by simp
  note ih = Suc.hyps(1) [OF n i1, of ?e2 ?w3]
  have unf: "restoreData_loop i count e w = restoreData_loop (i + 1) count ?e2 ?w3"
    using True by (subst restoreData_loop.simps) (simp add: time_Now_def client_call_def Let_def split: prod.splits)
  show ?case unfolding unf ih u using Suc.prems by simp
qed

lemma restoreData_calls:
  "client_calls (snd (restoreData e w)) =
     client_calls w @
       (if numKeys (recStore e) > 0
        then map (\<lambda>j. CallCreate (NewRandomKey (offsetDel (recStore e) + int j))) [0..<nat (nextDelete (recStore e))]
        else [])"
  using restoreData_loop_calls [of 0 "nextDelete (recStore e)" e w]
  by (simp add: restoreData_def)

subsection \<open>Small facts about lists\<close>

lemma upt_5: "[0..<5] = [0, 1, 2, 3, 4]"
  by code_simp

lemma filter_upt_less: "filter (\<lambda>i. int i < B) [0..<n] = [0..<min n (nat B)]"
proof (induction n)
  case 0
  then show ?case by simp
next
  case (Suc n)
  show ?case
  proof (cases "int n < B")
    case True
    then have "min (Suc n) (nat B) = Suc n" "min n (nat B) = n" by linarith+
    then show ?thesis using Suc True by simp
  next
    case False
    then have "min (Suc n) (nat B) = min n (nat B)" by linarith
    then show ?thesis using Suc False by simp
  qed
qed

subsection \<open>Handlers on a preloaded store\<close>

lemma wrap64_id: "- (2 ^ 63) \<le> x \<Longrightarrow> x < 2 ^ 63 \<Longrightarrow> wrap64 x = x"
  by (simp add: wrap64_def sint_sbintrunc' signed_take_bit_int_eq_self)

lemma handler_effect_refl: "handler_effect e w e w"
  by (simp add: handler_effect_def same_env_def)

lemma invokeCreate_preloaded:
  "numKeys (recStore e) > 0 \<Longrightarrow> invokeCreate e w = Some (Inr (None, e, w))"
  by (simp add: invokeCreate_def)

lemma invokeWithGet_preloaded:
  assumes "numKeys (recStore e) > 0"
  shows "invokeWithGet call e w =
           (let s = recStore e;
                k = wrap64 (getRecord_count s - 1
                      - float_term w (getRecord_count s) (int (rand_src w (rand_pos w)) mod getRecord_count s + 1))
            in Some (Inr (snd (client_resp w (length (client_calls w))),
                      e\<lparr>recStore := s\<lparr>currGet := k\<rparr>\<rparr>,
                      w\<lparr>rand_pos := Suc (rand_pos w),
                        client_calls := client_calls w @ [call (NewRandomKey (offsetGet s + k))]\<rparr>)))"
  using assms
  by (simp add: invokeWithGet_def Get_preloaded Let_def client_call_def split: prod.splits)

lemma invokeDestroy_preloaded:
  assumes "numKeys (recStore e) > 0"
  shows "invokeDestroy e w =
           (let s = recStore e
            in if endOfDelete s then Some (Inr (None, e, w))
               else Some (Inr (snd (client_resp w (length (client_calls w))),
                      e\<lparr>recStore := (if endOfDelete (s\<lparr>nextDelete := nextDelete s + 1\<rparr>)
                                      then s\<lparr>nextDelete := nextDelete s + 1, LastDelete := True\<rparr>
                                      else s\<lparr>nextDelete := nextDelete s + 1\<rparr>)\<rparr>,
                      w\<lparr>client_calls := client_calls w @ [CallDestroy (NewRandomKey (offsetDel s + nextDelete s))]\<rparr>)))"
  using assms
  by (simp add: invokeDestroy_def Take_preloaded Let_def client_call_def split: prod.splits)

lemma call_func_preloaded:
  assumes "numKeys (recStore e) > 0"
  shows "\<exists>err e' w'. call_func f e w = Some (Inr (err, e', w')) \<and> handler_effect e w e' w'
           \<and> (f = FnGet \<or> f = FnUpdate \<or> f = FnSet \<longrightarrow> err = snd (client_resp w (length (client_calls w))))"
  using assms
  by (cases f)
     (simp_all add: invokeCreate_preloaded invokeGet_def invokeUpdate_def invokeSet_def
        invokeWithGet_preloaded invokeDestroy_preloaded Let_def handler_effect_def same_env_def creates_def)

lemma invoke_preloaded:
  assumes "numKeys (recStore e) > 0"
  shows "\<exists>r. invoke e t w = Some r \<and>
           (\<forall>err e' w'. r = Inr (err, e', w') \<longrightarrow> handler_effect e w e' w')"
proof -
  consider "t > kNumRequestTypes" | "\<not> t > kNumRequestTypes" "unat t \<ge> length (invokeFuncs e)"
    | "\<not> t > kNumRequestTypes" "\<not> unat t \<ge> length (invokeFuncs e)" "invokeFuncs e ! unat t = None"
    | f where "\<not> t > kNumRequestTypes" "\<not> unat t \<ge> length (invokeFuncs e)" "invokeFuncs e ! unat t = Some f"
    by (cases "invokeFuncs e ! unat t") auto
  then show ?thesis
  proof cases
    case 1
    then show ?thesis by (simp add: invoke_def)
  next
    case 2
    then show ?thesis by (simp add: invoke_def)
  next
    case 3
    then show ?thesis by (simp add: invoke_def handler_effect_refl)
  next
    case 4
    then show ?thesis using call_func_preloaded [OF assms, of f w] by (auto simp: invoke_def)
  qed
qed

lemma replicate_5_update:
  "(replicate 5 z)[0 := a, Suc 0 := b, 2 := c, 3 := d, 4 := f] = [a, b, c, d, f]"
  by (simp add: eval_nat_numeral)

lemma Init_funcs:
  "invokeFuncs (Init e) = [Some FnCreate, Some FnGet, Some FnUpdate, Some FnSet, Some FnDestroy]"
  by (simp add: Init_def kNumRequestTypes_def kRequestTypeCreate_def kRequestTypeGet_def
        kRequestTypeUpdate_def kRequestTypeSet_def kRequestTypeDestroy_def replicate_5_update)

lemma call_func_preloaded_calls:
  assumes "numKeys (recStore e) > 0"
  shows "\<exists>err e' w'. call_func f e w = Some (Inr (err, e', w'))
           \<and> ((client_calls w' = client_calls w \<and> err = None \<and> (f = FnCreate \<or> f = FnDestroy))
                \<or> (length (client_calls w') = Suc (length (client_calls w))
                    \<and> err = snd (client_resp w (length (client_calls w)))
                    \<and> \<not> (f = FnDestroy \<and> endOfDelete (recStore e') \<and> \<not> LastDelete (recStore e'))))"
  using assms
  by (cases f)
     (simp_all add: invokeCreate_preloaded invokeGet_def invokeUpdate_def invokeSet_def
        invokeWithGet_preloaded invokeDestroy_preloaded Let_def)

lemma RequestType_cases:
  assumes "t < kNumRequestTypes"
  shows "t = kRequestTypeCreate \<or> t = kRequestTypeGet \<or> t = kRequestTypeUpdate
         \<or> t = kRequestTypeSet \<or> t = kRequestTypeDestroy"
proof -
  have "unat t < 5" using assms by (simp add: kNumRequestTypes_def word_less_nat_alt)
  then have "unat t = 0 \<or> unat t = 1 \<or> unat t = 2 \<or> unat t = 3 \<or> unat t = 4" by linarith
  moreover have "t = word_of_nat (unat t)" by simp
  ultimately have "t = 0 \<or> t = 1 \<or> t = 2 \<or> t = 3 \<or> t = 4" by (elim disjE) simp_all
  then show ?thesis
    by (simp add: kRequestTypeCreate_def kRequestTypeGet_def kRequestTypeUpdate_def
          kRequestTypeSet_def kRequestTypeDestroy_def)
qed

lemma invoke_Init_table:
  assumes "invokeFuncs e = [Some FnCreate, Some FnGet, Some FnUpdate, Some FnSet, Some FnDestroy]"
  shows "invoke e kRequestTypeCreate w = call_func FnCreate e w"
    "invoke e kRequestTypeGet w = call_func FnGet e w"
    "invoke e kRequestTypeUpdate w = call_func FnUpdate e w"
    "invoke e kRequestTypeSet w = call_func FnSet e w"
    "invoke e kRequestTypeDestroy w = call_func FnDestroy e w"
  by (simp_all only: invoke_def assms kNumRequestTypes_def kRequestTypeCreate_def kRequestTypeGet_def
        kRequestTypeUpdate_def kRequestTypeSet_def kRequestTypeDestroy_def)
     simp_all

lemma RequestType_distinct:
  "kRequestTypeCreate \<noteq> kRequestTypeGet" "kRequestTypeCreate \<noteq> kRequestTypeUpdate"
  "kRequestTypeCreate \<noteq> kRequestTypeSet" "kRequestTypeCreate \<noteq> kRequestTypeDestroy"
  "kRequestTypeGet \<noteq> kRequestTypeDestroy" "kRequestTypeUpdate \<noteq> kRequestTypeDestroy"
  "kRequestTypeSet \<noteq> kRequestTypeDestroy"
  "kRequestTypeDestroy \<noteq> kRequestTypeGet" "kRequestTypeDestroy \<noteq> kRequestTypeUpdate"
  "kRequestTypeDestroy \<noteq> kRequestTypeSet"
  by (simp_all add: kRequestTypeCreate_def kRequestTypeGet_def kRequestTypeUpdate_def
        kRequestTypeSet_def kRequestTypeDestroy_def)

lemma invoke_preloaded_calls:
  assumes nk: "numKeys (recStore e) > 0"
    and fs: "invokeFuncs e = [Some FnCreate, Some FnGet, Some FnUpdate, Some FnSet, Some FnDestroy]"
    and ty: "t < kNumRequestTypes"
  shows "\<exists>err e' w'. invoke e t w = Some (Inr (err, e', w')) \<and> handler_effect e w e' w'
           \<and> ((client_calls w' = client_calls w \<and> err = None
                 \<and> t \<noteq> kRequestTypeGet \<and> t \<noteq> kRequestTypeUpdate \<and> t \<noteq> kRequestTypeSet)
                \<or> (length (client_calls w') = Suc (length (client_calls w))
                    \<and> err = snd (client_resp w (length (client_calls w)))
                    \<and> \<not> (t = kRequestTypeDestroy \<and> endOfDelete (recStore e') \<and> \<not> LastDelete (recStore e'))))"
proof -
  have step: "\<exists>err e' w'. invoke e t w = Some (Inr (err, e', w')) \<and> handler_effect e w e' w'
           \<and> ((client_calls w' = client_calls w \<and> err = None
                 \<and> t \<noteq> kRequestTypeGet \<and> t \<noteq> kRequestTypeUpdate \<and> t \<noteq> kRequestTypeSet)
                \<or> (length (client_calls w') = Suc (length (client_calls w))
                    \<and> err = snd (client_resp w (length (client_calls w)))
                    \<and> \<not> (t = kRequestTypeDestroy \<and> endOfDelete (recStore e') \<and> \<not> LastDelete (recStore e'))))"
    if f: "invoke e t w = call_func f e w"
      and a: "f = FnCreate \<or> f = FnDestroy \<longrightarrow> t \<noteq> kRequestTypeGet \<and> t \<noteq> kRequestTypeUpdate \<and> t \<noteq> kRequestTypeSet"
      and b: "t = kRequestTypeDestroy \<longrightarrow> f = FnDestroy"
    for f
  proof -
    obtain err e' w' where c: "call_func f e w = Some (Inr (err, e', w'))"
      and d: "(client_calls w' = client_calls w \<and> err = None \<and> (f = FnCreate \<or> f = FnDestroy))
            \<or> (length (client_calls w') = Suc (length (client_calls w))
                \<and> err = snd (client_resp w (length (client_calls w)))
                \<and> \<not> (f = FnDestroy \<and> endOfDelete (recStore e') \<and> \<not> LastDelete (recStore e')))"
      using call_func_preloaded_calls [OF nk, of f w] by blast
    have he: "handler_effect e w e' w'"
      using call_func_preloaded [OF nk, of f w] c by auto
    have "(client_calls w' = client_calls w \<and> err = None
            \<and> t \<noteq> kRequestTypeGet \<and> t \<noteq> kRequestTypeUpdate \<and> t \<noteq> kRequestTypeSet)
          \<or> (length (client_calls w') = Suc (length (client_calls w))
              \<and> err = snd (client_resp w (length (client_calls w)))
              \<and> \<not> (t = kRequestTypeDestroy \<and> endOfDelete (recStore e') \<and> \<not> LastDelete (recStore e')))"
      using d a b by blast
    then show ?thesis using f c he by simp
  qed
  from RequestType_cases [OF ty] show ?thesis
  proof (elim disjE)
    assume t: "t = kRequestTypeCreate"
    show ?thesis
      by (rule step [of FnCreate]) (simp_all add: t invoke_Init_table [OF fs] RequestType_distinct)
  next
    assume t: "t = kRequestTypeGet"
    show ?thesis
      by (rule step [of FnGet]) (simp_all add: t invoke_Init_table [OF fs] RequestType_distinct)
  next
    assume t: "t = kRequestTypeUpdate"
    show ?thesis
      by (rule step [of FnUpdate]) (simp_all add: t invoke_Init_table [OF fs] RequestType_distinct)
  next
    assume t: "t = kRequestTypeSet"
    show ?thesis
      by (rule step [of FnSet]) (simp_all add: t invoke_Init_table [OF fs] RequestType_distinct)
  next
    assume t: "t = kRequestTypeDestroy"
    show ?thesis
      by (rule step [of FnDestroy]) (simp_all add: t invoke_Init_table [OF fs] RequestType_distinct)
  qed
qed

subsection \<open>The loops of Run\<close>

lemma run_rel_refl: "run_rel st st"
  by (cases st) (simp add: run_rel_def same_env_def)

lemma run_rel_trans: "run_rel a b \<Longrightarrow> run_rel b c \<Longrightarrow> run_rel a c"
  by (cases a; cases b; cases c) (auto simp: run_rel_def same_env_def)

lemma step_ok_trans: "run_rel a b \<Longrightarrow> step_ok b s \<Longrightarrow> step_ok a s"
  by (cases "(b, s)" rule: step_ok.cases) (auto intro: run_rel_trans)

lemma checkSpeed_world:
  "checkSpeed rps num now start w = Inr w' \<Longrightarrow> client_calls w' = client_calls w \<and> same_env w w'"
  by (auto simp: checkSpeed_def Let_def same_env_def split: if_splits)

lemma Run_pace_effect:
  assumes "Run_pace now (l, e, w) = Inr (l', e', w')"
  shows "errCount l' = errCount l \<and> recStore e' = recStore e \<and> stats e' = stats e
         \<and> reqSequence e' = reqSequence e \<and> invokeFuncs e' = invokeFuncs e \<and> rdgen e' = rdgen e
         \<and> client_calls w' = client_calls w \<and> same_env w w'"
proof (cases "isVariable (rdgen e) \<and> time_Sub now (startTime l) > 12 * time_Second")
  case True
  let ?w1 = "w\<lparr>tp_pos := Suc (tp_pos w), clock_pos := Suc (clock_pos w)\<rparr>"
  let ?e1 = "e\<lparr>numReqPerSecond := getThroughPut w (tp_pos w)\<rparr>"
  from assms True obtain w2 where
    "checkSpeed (numReqPerSecond ?e1) 1 now (clock w (clock_pos w)) ?w1 = Inr w2" "w' = w2" "e' = ?e1"
    "errCount l' = errCount l"
    by (auto simp: Run_pace_def Let_def time_Now_def checkSpeedForVariableTp_def split: sum.splits)
  then show ?thesis using checkSpeed_world [of _ _ _ _ ?w1 w'] by (auto simp: same_env_def)
next
  case False
  from assms False obtain rps num st where
    "checkSpeed rps num now st w = Inr w'" "e' = e" "errCount l' = errCount l"
    by (auto simp: Run_pace_def Let_def checkSpeedForVariableTp_def checkSpeedDelayIfNeeded_def
             split: sum.splits if_splits)
  then show ?thesis using checkSpeed_world [of _ _ _ _ w w'] by auto
qed

lemma samples_Put: "samples (Put st t tm err) = samples st @ [(t, tm, err)]"
  by (simp add: Put_def)

lemma failures_Put: "failures (Put st t tm err) = failures st + (if err \<noteq> None then 1 else 0)"
  by (simp add: failures_def Put_def)

lemma Run_account_ok:
  assumes nk: "numKeys (recStore e2) > 0" and le: "errCount l \<le> 100"
    and rd: "Run_account item now err (l, e2, w2) = Inr step"
  shows "step_ok (l, e2, w2) step \<and> (\<forall>st'. step \<noteq> Returned ExitDone st')"
proof -
  define w3 where "w3 = w2\<lparr>clock_pos := Suc (clock_pos w2)\<rparr>"
  define tm where "tm = time_Sub (clock w2 (clock_pos w2)) now"
  define dd where "dd \<longleftrightarrow> reqType item = kRequestTypeDestroy \<and> endOfDelete (recStore e2)"
  define e3 where "e3 = (if dd \<and> LastDelete (recStore e2)
              then e2\<lparr>recStore := (recStore e2)\<lparr>LastDelete := False\<rparr>\<rparr> else e2)"
  define e5 where "e5 = e3\<lparr>stats := Put (stats e3) (reqType item) tm err,
                            movingStats := Put (movingStats e3) (reqType item) tm err\<rparr>"
  define l1 where "l1 = (if err \<noteq> None \<and> numKeys (recStore e5) > 0 then l\<lparr>errCount := errCount l + 1\<rparr> else l)"
  have unf: "Run_account item now err (l, e2, w2) =
     (if dd \<and> \<not> LastDelete (recStore e2) then Inr (Next (l, e2, w3))
      else if err \<noteq> None \<and> numKeys (recStore e5) > 0 \<and> errCount l1 > 100
      then Inr (Returned ExitErrors (l1, e5, w3))
      else (case Run_pace now (l1, e5, w3) of
              Inl f \<Rightarrow> Inl f
            | Inr st' \<Rightarrow> Inr (Next st')))"
    unfolding w3_def tm_def dd_def e3_def e5_def l1_def
    by (auto simp add: Run_account_def time_Now_def Let_def)
  have e3: "stats e3 = stats e2" "reqSequence e3 = reqSequence e2" "invokeFuncs e3 = invokeFuncs e2"
    "rdgen e3 = rdgen e2" "numKeys (recStore e3) = numKeys (recStore e2)"
    by (simp_all add: e3_def)
  have e5: "stats e5 = Put (stats e2) (reqType item) tm err" "reqSequence e5 = reqSequence e2"
    "invokeFuncs e5 = invokeFuncs e2" "rdgen e5 = rdgen e2" "numKeys (recStore e5) = numKeys (recStore e2)"
    using e3 by (simp_all add: e5_def)
  have l1: "errCount l1 = errCount l + (if err \<noteq> None then 1 else 0)"
    using e5 nk by (simp add: l1_def)
  have w3: "client_calls w3 = client_calls w2" "same_env w2 w3"
    by (simp_all add: w3_def same_env_def)
  have base: "run_rel (l, e2, w2) (l, e2, w3)"
    using w3 by (simp add: run_rel_def creates_def)
  have rel5: "run_rel (l, e2, w2) (l1, e5, w3)"
    using e5 w3 l1 by (simp add: run_rel_def failures_Put creates_def samples_Put)
  show ?thesis
  proof (cases "dd \<and> \<not> LastDelete (recStore e2)")
    case True
    then have "step = Next (l, e2, w3)" using rd unf by simp
    then show ?thesis using base le by simp
  next
    case skip: False
    show ?thesis
    proof (cases "err \<noteq> None \<and> numKeys (recStore e5) > 0 \<and> errCount l1 > 100")
      case True
      then have s: "step = Returned ExitErrors (l1, e5, w3)" using rd unf skip by simp
      have "errCount l1 = 101" using True le l1 by (auto split: if_splits)
      moreover have "last_failed (stats e5)" using True e5 by (simp add: last_failed_def samples_Put)
      ultimately show ?thesis using rel5 s by simp
    next
      case False
      then obtain st' where p: "Run_pace now (l1, e5, w3) = Inr st'" and s: "step = Next st'"
        using rd unf skip by (cases "Run_pace now (l1, e5, w3)") (simp_all split: if_splits)
      obtain l' e' w' where st': "st' = (l', e', w')" by (cases st')
      note pe = Run_pace_effect [OF p [unfolded st']]
      have l1': "errCount l1 \<le> 100" using False le e5 nk l1 by (auto split: if_splits)
      have "run_rel (l1, e5, w3) (l', e', w')"
        using pe by (simp add: run_rel_def creates_def)
      then have "run_rel (l, e2, w2) st'" using rel5 st' run_rel_trans by blast
      then show ?thesis using s st' pe l1' by simp
    qed
  qed
qed

lemma handler_effect_run_rel:
  "handler_effect e w e2 w2 \<Longrightarrow> run_rel (l, e, w) (l, e2, w2)"
  by (simp add: handler_effect_def run_rel_def)

lemma Run_default_ok:
  assumes nk: "numKeys (recStore e) > 0" and le: "errCount l \<le> 100"
    and rd: "Run_default item (l, e, w) = Some (Inr step)"
  shows "step_ok (l, e, w) step \<and> (\<forall>st'. step \<noteq> Returned ExitDone st')"
proof -
  let ?w1 = "w\<lparr>clock_pos := Suc (clock_pos w)\<rparr>"
  let ?now = "clock w (clock_pos w)"
  obtain r where r: "invoke e (reqType item) ?w1 = Some r"
    and eff: "\<forall>err e' w'. r = Inr (err, e', w') \<longrightarrow> handler_effect e ?w1 e' w'"
    using invoke_preloaded [OF nk] by blast
  obtain err e2 w2 where r2: "r = Inr (err, e2, w2)"
    using rd r by (cases r) (auto simp: Run_default_def time_Now_def)
  have he: "handler_effect e ?w1 e2 w2" using eff r2 by simp
  have ra: "Run_account item ?now err (l, e2, w2) = Inr step"
    using rd r r2 by (simp add: Run_default_def time_Now_def)
  have nk2: "numKeys (recStore e2) > 0" using he nk by (simp add: handler_effect_def)
  have "run_rel (l, e, ?w1) (l, e2, w2)" by (rule handler_effect_run_rel [OF he])
  moreover have "run_rel (l, e, w) (l, e, ?w1)" by (simp add: run_rel_def creates_def same_env_def)
  ultimately have "run_rel (l, e, w) (l, e2, w2)" by (rule run_rel_trans [rotated])
  then show ?thesis using Run_account_ok [OF nk2 le ra] step_ok_trans by blast
qed

lemma Run_select_ok:
  assumes nk: "numKeys (recStore e) > 0" and le: "errCount l \<le> 100"
    and rd: "Run_select item (l, e, w) = Some (Inr step)"
  shows "step_ok (l, e, w) step"
proof (cases "chDone w (done_pos w)")
  case True
  then have "step = Returned ExitDone (l, e, w\<lparr>done_pos := Suc (done_pos w)\<rparr>)"
    using rd by (simp add: Run_select_def)
  then show ?thesis using le by (simp add: run_rel_def creates_def same_env_def)
next
  case False
  let ?w1 = "w\<lparr>done_pos := Suc (done_pos w)\<rparr>"
  have "Run_default item (l, e, ?w1) = Some (Inr step)" using rd False by (simp add: Run_select_def)
  then have "step_ok (l, e, ?w1) step" using Run_default_ok [OF nk le] by blast
  moreover have "run_rel (l, e, w) (l, e, ?w1)" by (simp add: run_rel_def creates_def same_env_def)
  ultimately show ?thesis using step_ok_trans by blast
qed

lemma step_ok_Next:
  "step_ok (l, e, w) (Next (l', e', w')) \<Longrightarrow> numKeys (recStore e) > 0 \<Longrightarrow>
     numKeys (recStore e') > 0 \<and> errCount l' \<le> 100 \<and> run_rel (l, e, w) (l', e', w')"
  by (simp add: run_rel_def)

lemma Run_requests_ok:
  assumes "numKeys (recStore (fst (snd st))) > 0" "errCount (fst st) \<le> 100"
    "Run_requests item i st = Some (Inr step)"
  shows "step_ok st step"
  using assms
proof (induction "nat (numRequests item - i)" arbitrary: i st)
  case 0
  then have "\<not> i < numRequests item" by simp
  then have "step = Next st" using "0.prems" by (subst (asm) Run_requests.simps) simp
  then show ?case using "0.prems" by (simp add: run_rel_refl)
next
  case (Suc n)
  then have lt: "i < numRequests item" by linarith
  obtain l e w where st: "st = (l, e, w)" by (cases st)
  have nk: "numKeys (recStore e) > 0" and le: "errCount l \<le> 100" using Suc.prems st by simp_all
  obtain r where sel: "Run_select item st = Some r"
    using Suc.prems(3) lt by (subst (asm) Run_requests.simps) (auto split: option.splits)
  show ?case
  proof (cases r)
    case (Inl f)
    then show ?thesis using Suc.prems(3) lt sel by (subst (asm) Run_requests.simps) simp
  next
    case (Inr s1)
    then have ok1: "step_ok st s1" using Run_select_ok [OF nk le] sel st by simp
    show ?thesis
    proof (cases s1)
      case (Returned x st')
      then have "step = s1" using Suc.prems(3) lt sel Inr by (subst (asm) Run_requests.simps) simp
      then show ?thesis using ok1 by simp
    next
      case (Next st')
      obtain l' e' w' where st': "st' = (l', e', w')" by (cases st')
      have rec: "Run_requests item (i + 1) st' = Some (Inr step)"
        using Suc.prems(3) lt sel Inr Next by (subst (asm) Run_requests.simps) simp
      have p: "numKeys (recStore e') > 0" "errCount l' \<le> 100" "run_rel st st'"
        using step_ok_Next [of l e w l' e' w'] ok1 Next st st' nk by simp_all
      have n: "n = nat (numRequests item - (i + 1))" using Suc.hyps(2) by linarith
      have "step_ok st' step" using Suc.hyps(1) [OF n _ _ rec] p st' by simp
      then show ?thesis using p(3) step_ok_trans by blast
    qed
  qed
qed

lemma Run_items_ok:
  assumes "numKeys (recStore (fst (snd st))) > 0" "errCount (fst st) \<le> 100"
    "Run_items its st = Some (Inr step)"
  shows "step_ok st step"
  using assms
proof (induction its arbitrary: st)
  case Nil
  then show ?case by (auto simp add: run_rel_refl)
next
  case (Cons item rest)
  show ?case
  proof (cases "numKeys (recStore (fst (snd st))) > 0 \<and> reqType item = kRequestTypeCreate")
    case True
    then have "Run_items rest st = Some (Inr step)" using Cons.prems(3) by simp
    then show ?thesis using Cons.IH Cons.prems by blast
  next
    case False
    obtain l e w where st: "st = (l, e, w)" by (cases st)
    obtain r where rq: "Run_requests item 0 st = Some r"
      using Cons.prems(3) False by (auto split: option.splits)
    show ?thesis
    proof (cases r)
      case (Inl f)
      then show ?thesis using Cons.prems(3) False rq by simp
    next
      case (Inr s1)
      then have ok1: "step_ok st s1" using Run_requests_ok [OF Cons.prems(1,2)] rq by simp
      show ?thesis
      proof (cases s1)
        case (Returned x st')
        then have "step = s1" using Cons.prems(3) False rq Inr by simp
        then show ?thesis using ok1 by simp
      next
        case (Next st')
        obtain l' e' w' where st': "st' = (l', e', w')" by (cases st')
        have rec: "Run_items rest st' = Some (Inr step)"
          using Cons.prems(3) False rq Inr Next by simp
        have p: "numKeys (recStore e') > 0" "errCount l' \<le> 100" "run_rel st st'"
          using step_ok_Next [of l e w l' e' w'] ok1 Next st st' Cons.prems(1) by simp_all
        have "step_ok st' step" using Cons.IH [OF _ _ rec] p st' by simp
        then show ?thesis using p(3) step_ok_trans by blast
      qed
    qed
  qed
qed

lemma Run_loop_ok:
  assumes "Run_loop st = Some y"
  shows "numKeys (recStore (fst (snd st))) > 0 \<longrightarrow> errCount (fst st) \<le> 100 \<longrightarrow>
           (\<forall>x st'. y = Inr (x, st') \<longrightarrow> step_ok st (Returned x st'))"
  using assms
proof (induction rule: Run_loop.raw_induct [rotated 1, consumes 1, case_names body])
  case (body Run_loop st y)
  note 1 = body
  show ?case
  proof (intro impI allI)
    fix x st'
    assume nk: "numKeys (recStore (fst (snd st))) > 0" and le: "errCount (fst st) \<le> 100"
      and y: "y = Inr (x, st')"
    obtain r where ri: "Run_items (items (reqSequence (fst (snd st)))) st = Some r"
      using "1"(2) by (auto split: option.splits)
    show "step_ok st (Returned x st')"
    proof (cases r)
      case (Inl f)
      then show ?thesis using "1"(2) ri y by simp
    next
      case (Inr s1)
      then have ok1: "step_ok st s1" using Run_items_ok [OF nk le] ri by simp
      show ?thesis
      proof (cases s1)
        case (Returned x1 st1)
        then have "s1 = Returned x st'" using "1"(2) ri Inr y by simp
        then show ?thesis using ok1 by simp
      next
        case (Next st1)
        obtain l e w where st: "st = (l, e, w)" by (cases st)
        obtain l' e' w' where st1: "st1 = (l', e', w')" by (cases st1)
        have rec: "Run_loop st1 = Some y" using "1"(2) ri Inr Next by simp
        have p: "numKeys (recStore e') > 0" "errCount l' \<le> 100" "run_rel st st1"
          using step_ok_Next [of l e w l' e' w'] ok1 Next st st1 nk by simp_all
        have "step_ok st1 (Returned x st')" using "1"(1) [OF rec] p st1 y by (cases st') simp
        then show ?thesis using p(3) step_ok_trans by blast
      qed
    qed
  qed
qed

subsection \<open>A run that the error count ends\<close>

lemma checkSpeed_total:
  "rps \<noteq> 0 \<Longrightarrow> \<exists>w'. checkSpeed rps num now start w = Inr w'"
  by (simp add: checkSpeed_def Let_def)

lemma Run_pace_total:
  assumes "numReqPerSecond e \<noteq> 0" "isVariable (rdgen e) \<longrightarrow> (\<forall>n. getThroughPut w n \<noteq> 0)"
  shows "\<exists>l' e' w'. Run_pace now (l, e, w) = Inr (l', e', w') \<and> numReqPerSecond e' \<noteq> 0"
proof (cases "isVariable (rdgen e) \<and> time_Sub now (startTime l) > 12 * time_Second")
  case True
  let ?w1 = "w\<lparr>tp_pos := Suc (tp_pos w), clock_pos := Suc (clock_pos w)\<rparr>"
  let ?r = "getThroughPut w (tp_pos w)"
  have r: "?r \<noteq> 0" using True assms by simp
  obtain w2 where "checkSpeed ?r 1 now (clock w (clock_pos w)) ?w1 = Inr w2"
    using checkSpeed_total [OF r] by blast
  then show ?thesis using True r
    by (simp add: Run_pace_def Let_def time_Now_def checkSpeedForVariableTp_def)
next
  case False
  show ?thesis
  proof (cases "isVariable (rdgen e)")
    case True
    obtain w2 where "checkSpeed (numReqPerSecond e) (numreq l + 1) now (startTime l) w = Inr w2"
      using checkSpeed_total [OF assms(1)] by blast
    then show ?thesis using True False assms(1)
      by (simp add: Run_pace_def Let_def checkSpeedForVariableTp_def)
  next
    case nv: False
    obtain w2 where "checkSpeed (numReqPerSecond e) (GetNumRequests (stats e)) now (tmStart (stats e)) w = Inr w2"
      using checkSpeed_total [OF assms(1)] by blast
    then show ?thesis using nv assms(1)
      by (simp add: Run_pace_def Let_def checkSpeedDelayIfNeeded_def)
  qed
qed

lemma Run_account_total:
  assumes "numReqPerSecond e2 \<noteq> 0" "isVariable (rdgen e2) \<longrightarrow> (\<forall>n. getThroughPut w2 n \<noteq> 0)"
    "numKeys (recStore e2) > 0"
  shows "\<exists>step. Run_account item now err (l, e2, w2) = Inr step
          \<and> (\<forall>l' e' w'. step = Next (l', e', w') \<longrightarrow> numReqPerSecond e' \<noteq> 0
                \<and> client_calls w' = client_calls w2
                \<and> errCount l' = errCount l
                     + (if err \<noteq> None \<and> \<not> (reqType item = kRequestTypeDestroy \<and> endOfDelete (recStore e2)
                                              \<and> \<not> LastDelete (recStore e2))
                        then 1 else 0))"
proof -
  define w3 where "w3 = w2\<lparr>clock_pos := Suc (clock_pos w2)\<rparr>"
  define tm where "tm = time_Sub (clock w2 (clock_pos w2)) now"
  define dd where "dd \<longleftrightarrow> reqType item = kRequestTypeDestroy \<and> endOfDelete (recStore e2)"
  define e3 where "e3 = (if dd \<and> LastDelete (recStore e2)
              then e2\<lparr>recStore := (recStore e2)\<lparr>LastDelete := False\<rparr>\<rparr> else e2)"
  define e5 where "e5 = e3\<lparr>stats := Put (stats e3) (reqType item) tm err,
                            movingStats := Put (movingStats e3) (reqType item) tm err\<rparr>"
  define l1 where "l1 = (if err \<noteq> None \<and> numKeys (recStore e5) > 0 then l\<lparr>errCount := errCount l + 1\<rparr> else l)"
  have unf: "Run_account item now err (l, e2, w2) =
     (if dd \<and> \<not> LastDelete (recStore e2) then Inr (Next (l, e2, w3))
      else if err \<noteq> None \<and> numKeys (recStore e5) > 0 \<and> errCount l1 > 100
      then Inr (Returned ExitErrors (l1, e5, w3))
      else (case Run_pace now (l1, e5, w3) of
              Inl f \<Rightarrow> Inl f
            | Inr st' \<Rightarrow> Inr (Next st')))"
    unfolding w3_def tm_def dd_def e3_def e5_def l1_def
    by (auto simp add: Run_account_def time_Now_def Let_def)
  have e5: "numReqPerSecond e5 \<noteq> 0" "rdgen e5 = rdgen e2" "numKeys (recStore e5) = numKeys (recStore e2)"
    using assms(1) by (simp_all add: e5_def e3_def)
  have w3: "getThroughPut w3 = getThroughPut w2" "client_calls w3 = client_calls w2"
    by (simp_all add: w3_def)
  have l1: "errCount l1 = errCount l + (if err \<noteq> None then 1 else 0)"
    using e5 assms(3) by (simp add: l1_def)
  obtain l' e' w' where p: "Run_pace now (l1, e5, w3) = Inr (l', e', w')" "numReqPerSecond e' \<noteq> 0"
    using Run_pace_total [of e5 w3 now l1] e5 w3 assms(2) by auto
  have pl: "errCount l' = errCount l1" "client_calls w' = client_calls w3"
    using Run_pace_effect [OF p(1)] by simp_all
  show ?thesis
    unfolding unf using p pl l1 w3 assms(1) by (auto simp: dd_def)
qed

lemma failing_Suc:
  "failing w (Suc c) H + (if c < H \<and> snd (client_resp w c) \<noteq> None then 1 else 0) = failing w c H"
proof (cases "c < H")
  case True
  then have "[c..<H] = c # [Suc c..<H]" by (rule upt_conv_Cons)
  then show ?thesis using True by (simp add: failing_def)
next
  case False
  then show ?thesis by (simp add: failing_def)
qed

lemma failing_env: "client_resp w' = client_resp w \<Longrightarrow> failing w' a b = failing w a b"
  by (simp add: failing_def)

lemma failing_pos: "0 < failing w a b \<Longrightarrow> a < b"
  by (cases "a < b") (simp_all add: failing_def)

lemma failing_all:
  assumes "\<forall>n \<ge> a. snd (client_resp w n) \<noteq> None"
  shows "failing w a (a + k) = k"
proof -
  have "filter (\<lambda>n. snd (client_resp w n) \<noteq> None) [a..<a + k] = [a..<a + k]"
    using assms by (intro filter_True) simp
  then show ?thesis by (simp add: failing_def)
qed

lemma always_fails_live:
  assumes "run_inv (l, e, w)" "always_fails w"
  shows "live_inv (length (client_calls w) + nat (101 - errCount l)) (l, e, w)"
  using assms failing_all [of "length (client_calls w)" w "nat (101 - errCount l)"]
  by (simp add: live_inv_def always_fails_def)

lemma live_inv_calls:
  assumes "live_inv H (l, e, w)"
  shows "length (client_calls w) < H"
proof -
  have "101 - errCount l \<le> int (failing w (length (client_calls w)) H)" "errCount l \<le> 100"
    using assms by (simp_all add: live_inv_def run_inv_def)
  then have "0 < failing w (length (client_calls w)) H" by linarith
  then show ?thesis by (rule failing_pos)
qed

lemma live_step_trans:
  assumes "live_step H a (Next b) c1" "live_step H b s c2"
  shows "live_step H a s (c1 \<or> c2)"
proof -
  have ab: "run_rel a b" "live_inv H b" using assms(1) by simp_all
  have mono: "length (client_calls (snd (snd a))) \<le> length (client_calls (snd (snd b)))"
    using ab(1) by (cases a; cases b) (simp add: run_rel_def)
  show ?thesis
  proof (cases s)
    case (Returned x st')
    have *: "step_ok b (Returned x st')" "x = ExitErrors"
      using assms(2) unfolding Returned live_step.simps by blast+
    have "step_ok a (Returned x st')" using step_ok_trans [OF ab(1) *(1)] .
    then show ?thesis unfolding Returned live_step.simps using *(2) by blast
  next
    case (Next st')
    have bs: "run_rel b st'" using assms(2) Next by simp
    have mono2: "length (client_calls (snd (snd b))) \<le> length (client_calls (snd (snd st')))"
      using bs by (cases b; cases st') (simp add: run_rel_def)
    have sb: "step_ok b (Next st')" "live_inv H st'"
      "c2 \<longrightarrow> length (client_calls (snd (snd st'))) > length (client_calls (snd (snd b)))"
      using assms(2) unfolding Next live_step.simps by blast+
    have c1: "c1 \<longrightarrow> length (client_calls (snd (snd b))) > length (client_calls (snd (snd a)))"
      using assms(1) unfolding live_step.simps by blast
    have "step_ok a (Next st')" using step_ok_trans [OF ab(1) sb(1)] .
    moreover have "c1 \<or> c2 \<longrightarrow> length (client_calls (snd (snd st'))) > length (client_calls (snd (snd a)))"
      using c1 sb(3) mono mono2 by linarith
    ultimately show ?thesis unfolding Next live_step.simps using sb(2) by blast
  qed
qed

lemma live_step_pre:
  assumes "run_rel a b" "length (client_calls (snd (snd a))) = length (client_calls (snd (snd b)))"
    "live_step H b s c"
  shows "live_step H a s c"
proof (cases s)
  case (Returned x st')
  have *: "step_ok b (Returned x st')" "x = ExitErrors"
    using assms(3) unfolding Returned live_step.simps by blast+
  have "step_ok a (Returned x st')" using step_ok_trans [OF assms(1) *(1)] .
  then show ?thesis unfolding Returned live_step.simps using *(2) by blast
next
  case (Next st')
  have sb: "step_ok b (Next st')" "live_inv H st'"
    "c \<longrightarrow> length (client_calls (snd (snd st'))) > length (client_calls (snd (snd b)))"
    using assms(3) unfolding Next live_step.simps by blast+
  have "step_ok a (Next st')" using step_ok_trans [OF assms(1) sb(1)] .
  then show ?thesis unfolding Next live_step.simps using sb(2,3) assms(2) by simp
qed

lemma live_step_weaken: "live_step H st s c \<Longrightarrow> (c' \<longrightarrow> c) \<Longrightarrow> live_step H st s c'"
  by (cases s) auto

text \<open>One operation: a call to the client whose response is an error is recorded and
  counted, so the errors still to come go down together with what is missing to 101.\<close>

lemma Run_default_live:
  assumes li: "live_inv H (l, e, w)" and ty: "reqType item < kNumRequestTypes"
  shows "\<exists>step. Run_default item (l, e, w) = Some (Inr step) \<and> live_step H (l, e, w) step (reads_item item)"
proof -
  let ?w1 = "w\<lparr>clock_pos := Suc (clock_pos w)\<rparr>"
  let ?now = "clock w (clock_pos w)"
  let ?c = "length (client_calls w)"
  let ?skip = "reqType item = kRequestTypeDestroy \<and> endOfDelete (recStore e2) \<and> \<not> LastDelete (recStore e2)"
  have ri: "run_inv (l, e, w)" and bud: "101 - errCount l \<le> int (failing w ?c H)"
    using li by (simp_all add: live_inv_def)
  have nk: "numKeys (recStore e) > 0"
    and fs: "invokeFuncs e = [Some FnCreate, Some FnGet, Some FnUpdate, Some FnSet, Some FnDestroy]"
    and le: "errCount l \<le> 100"
    using ri by (simp_all add: run_inv_def)
  obtain err e2 w2 where inv: "invoke e (reqType item) ?w1 = Some (Inr (err, e2, w2))"
    and he: "handler_effect e ?w1 e2 w2"
    and cl: "(client_calls w2 = client_calls w \<and> err = None \<and> \<not> reads_item item)
            \<or> (length (client_calls w2) = Suc ?c \<and> err = snd (client_resp w ?c)
               \<and> \<not> (reqType item = kRequestTypeDestroy \<and> endOfDelete (recStore e2)
                     \<and> \<not> LastDelete (recStore e2)))"
    using invoke_preloaded_calls [OF nk fs ty, of ?w1] by (auto simp: reads_item_def)
  have e2: "numReqPerSecond e2 \<noteq> 0" "isVariable (rdgen e2) \<longrightarrow> (\<forall>n. getThroughPut w2 n \<noteq> 0)"
    "numKeys (recStore e2) > 0"
    using he ri by (simp_all add: handler_effect_def run_inv_def same_env_def)
  obtain step where ra: "Run_account item ?now err (l, e2, w2) = Inr step"
    and nx: "\<forall>l' e' w'. step = Next (l', e', w') \<longrightarrow> numReqPerSecond e' \<noteq> 0
                \<and> client_calls w' = client_calls w2
                \<and> errCount l' = errCount l
                     + (if err \<noteq> None \<and> \<not> (reqType item = kRequestTypeDestroy \<and> endOfDelete (recStore e2)
                                              \<and> \<not> LastDelete (recStore e2))
                        then 1 else 0)"
    using Run_account_total [OF e2, of item ?now err l] by blast
  have rd: "Run_default item (l, e, w) = Some (Inr step)"
    using inv ra by (simp add: Run_default_def time_Now_def)
  note ok = Run_default_ok [OF nk le rd]
  have "live_step H (l, e, w) step (reads_item item)"
  proof (cases step)
    case (Returned x st')
    then show ?thesis using ok by (cases x) auto
  next
    case (Next st')
    obtain l' e' w' where st': "st' = (l', e', w')" by (cases st')
    have n: "numReqPerSecond e' \<noteq> 0" "client_calls w' = client_calls w2"
      "errCount l' = errCount l
         + (if err \<noteq> None \<and> \<not> (reqType item = kRequestTypeDestroy \<and> endOfDelete (recStore e2)
                                  \<and> \<not> LastDelete (recStore e2))
            then 1 else 0)"
      using nx Next st' by simp_all
    have rr: "run_rel (l, e, w) (l', e', w')" "errCount l' \<le> 100"
      using ok Next st' by simp_all
    have env: "client_resp w' = client_resp w"
      using rr(1) by (simp add: run_rel_def same_env_def)
    have ri': "run_inv (l', e', w')"
      using ri rr n(1) by (simp add: run_inv_def run_rel_def same_env_def)
    have bud': "101 - errCount l' \<le> int (failing w' (length (client_calls w')) H)"
      using cl
    proof
      assume a: "client_calls w2 = client_calls w \<and> err = None \<and> \<not> reads_item item"
      then have "length (client_calls w') = ?c" "errCount l' = errCount l"
        using n by simp_all
      then show ?thesis using bud failing_env [OF env] by simp
    next
      assume b: "length (client_calls w2) = Suc ?c \<and> err = snd (client_resp w ?c)
               \<and> \<not> (reqType item = kRequestTypeDestroy \<and> endOfDelete (recStore e2)
                     \<and> \<not> LastDelete (recStore e2))"
      then have c': "length (client_calls w') = Suc ?c"
        and ec: "errCount l' = errCount l + (if snd (client_resp w ?c) \<noteq> None then 1 else 0)"
        using n by auto
      have "int (failing w' (Suc ?c) H) = int (failing w (Suc ?c) H)"
        using failing_env [OF env] by simp
      moreover have "int (failing w ?c H) \<le> int (failing w (Suc ?c) H)
                       + (if snd (client_resp w ?c) \<noteq> None then 1 else 0)"
        using failing_Suc [of w ?c H] by (auto split: if_splits)
      ultimately show ?thesis using bud c' ec by (auto split: if_splits)
    qed
    have pr: "reads_item item \<longrightarrow> length (client_calls w') > ?c"
      using cl n(2) by auto
    show ?thesis using ok Next st' ri' bud' pr by (simp add: live_inv_def)
  qed
  then show ?thesis using rd by blast
qed

lemma Run_select_live:
  assumes li: "live_inv H (l, e, w)" and ty: "reqType item < kNumRequestTypes"
  shows "\<exists>step. Run_select item (l, e, w) = Some (Inr step) \<and> live_step H (l, e, w) step (reads_item item)"
proof -
  let ?w1 = "w\<lparr>done_pos := Suc (done_pos w)\<rparr>"
  have nd: "\<not> chDone w (done_pos w)" using li by (simp add: live_inv_def run_inv_def)
  have li1: "live_inv H (l, e, ?w1)" using li by (simp add: live_inv_def run_inv_def failing_def)
  obtain step where rd: "Run_default item (l, e, ?w1) = Some (Inr step)"
    and ls: "live_step H (l, e, ?w1) step (reads_item item)"
    using Run_default_live [OF li1 ty] by blast
  have rs: "Run_select item (l, e, w) = Some (Inr step)" using rd nd by (simp add: Run_select_def)
  have r: "run_rel (l, e, w) (l, e, ?w1)" by (simp add: run_rel_def creates_def same_env_def)
  have "live_step H (l, e, w) step (reads_item item)"
    by (rule live_step_pre [OF r _ ls]) simp
  then show ?thesis using rs by blast
qed

lemma Run_requests_live:
  assumes "live_inv H st" "reqType item < kNumRequestTypes"
  shows "\<exists>step. Run_requests item i st = Some (Inr step)
           \<and> live_step H st step (reads_item item \<and> i < numRequests item)"
  using assms
proof (induction "nat (numRequests item - i)" arbitrary: i st)
  case 0
  then have "\<not> i < numRequests item" by simp
  then have "Run_requests item i st = Some (Inr (Next st))" by (subst Run_requests.simps) simp
  moreover have "step_ok st (Next st)" using "0.prems"(1)
    by (cases st) (simp add: run_rel_refl live_inv_def run_inv_def)
  ultimately show ?case using "0.prems"(1) \<open>\<not> i < numRequests item\<close> by simp
next
  case (Suc n)
  then have lt: "i < numRequests item" by linarith
  obtain l e w where st: "st = (l, e, w)" by (cases st)
  obtain s1 where sel: "Run_select item st = Some (Inr s1)" and ls1: "live_step H st s1 (reads_item item)"
    using Run_select_live [of H l e w item] Suc.prems st by auto
  show ?case
  proof (cases s1)
    case (Returned x st')
    then have "Run_requests item i st = Some (Inr s1)" using lt sel by (subst Run_requests.simps) simp
    then show ?thesis using ls1 Returned by auto
  next
    case (Next st')
    have rec: "Run_requests item i st = Run_requests item (i + 1) st'"
      using lt sel Next by (subst Run_requests.simps) simp
    have n: "n = nat (numRequests item - (i + 1))" using Suc.hyps(2) by linarith
    have li': "live_inv H st'" using ls1 Next by simp
    obtain step where r2: "Run_requests item (i + 1) st' = Some (Inr step)"
      and ls2: "live_step H st' step (reads_item item \<and> i + 1 < numRequests item)"
      using Suc.hyps(1) [OF n li' Suc.prems(2)] by blast
    have "live_step H st step (reads_item item \<or> (reads_item item \<and> i + 1 < numRequests item))"
      using live_step_trans ls1 ls2 Next by blast
    then have "live_step H st step (reads_item item \<and> i < numRequests item)"
      by (rule live_step_weaken) simp
    then show ?thesis using rec r2 by simp
  qed
qed

lemma live_step_refl: "live_inv H st \<Longrightarrow> live_step H st (Next st) False"
  by (cases st) (simp add: run_rel_refl live_inv_def run_inv_def)

lemma Run_items_live:
  assumes "live_inv H st" "\<forall>item \<in> set its. reqType item < kNumRequestTypes"
  shows "\<exists>step. Run_items its st = Some (Inr step)
           \<and> live_step H st step (\<exists>item \<in> set its. reads_item item \<and> 0 < numRequests item)"
  using assms
proof (induction its arbitrary: st)
  case Nil
  then show ?case using live_step_refl by simp
next
  case (Cons item rest)
  have nk: "numKeys (recStore (fst (snd st))) > 0"
    using Cons.prems(1) by (cases st) (simp add: live_inv_def run_inv_def)
  have ty: "reqType item < kNumRequestTypes" "\<forall>item \<in> set rest. reqType item < kNumRequestTypes"
    using Cons.prems(2) by simp_all
  show ?case
  proof (cases "reqType item = kRequestTypeCreate")
    case True
    then have nr: "\<not> reads_item item"
      by (simp add: reads_item_def kRequestTypeCreate_def kRequestTypeGet_def
            kRequestTypeUpdate_def kRequestTypeSet_def)
    obtain step where r: "Run_items rest st = Some (Inr step)"
      and ls: "live_step H st step (\<exists>item \<in> set rest. reads_item item \<and> 0 < numRequests item)"
      using Cons.IH [OF Cons.prems(1) ty(2)] by blast
    have "Run_items (item # rest) st = Some (Inr step)" using True nk r by simp
    moreover have "live_step H st step (\<exists>i \<in> set (item # rest). reads_item i \<and> 0 < numRequests i)"
      by (rule live_step_weaken [OF ls]) (use nr in auto)
    ultimately show ?thesis by blast
  next
    case False
    obtain s1 where rq: "Run_requests item 0 st = Some (Inr s1)"
      and ls1: "live_step H st s1 (reads_item item \<and> 0 < numRequests item)"
      using Run_requests_live [OF Cons.prems(1) ty(1)] by blast
    show ?thesis
    proof (cases s1)
      case (Returned x st')
      then have "Run_items (item # rest) st = Some (Inr s1)" using False rq by simp
      moreover have "live_step H st s1 (\<exists>i \<in> set (item # rest). reads_item i \<and> 0 < numRequests i)"
        using ls1 unfolding Returned live_step.simps .
      ultimately show ?thesis by blast
    next
      case (Next st')
      have li': "live_inv H st'" using ls1 Next by simp
      obtain step where r: "Run_items rest st' = Some (Inr step)"
        and ls: "live_step H st' step (\<exists>item \<in> set rest. reads_item item \<and> 0 < numRequests item)"
        using Cons.IH [OF li' ty(2)] by blast
      have "Run_items (item # rest) st = Some (Inr step)" using False rq Next r by simp
      moreover have "live_step H st step ((reads_item item \<and> 0 < numRequests item)
                        \<or> (\<exists>item \<in> set rest. reads_item item \<and> 0 < numRequests item))"
        using live_step_trans ls1 ls Next by blast
      then have "live_step H st step (\<exists>i \<in> set (item # rest). reads_item i \<and> 0 < numRequests i)"
        by (rule live_step_weaken) auto
      ultimately show ?thesis by blast
    qed
  qed
qed

text \<open>Every pass over the items calls the client at least once, and the invariant keeps
  the number of calls below \<open>H\<close>: the outer loop is left, through the error count.\<close>

lemma Run_loop_live:
  assumes "live_inv H st"
    "\<exists>item \<in> set (items (reqSequence (fst (snd st)))). reads_item item \<and> 0 < numRequests item"
  shows "\<exists>st'. Run_loop st = Some (Inr (ExitErrors, st'))"
  using assms
proof (induction "H - length (client_calls (snd (snd st)))" arbitrary: st rule: less_induct)
  case less
  obtain l e w where st: "st = (l, e, w)" by (cases st)
  have ty: "\<forall>item \<in> set (items (reqSequence e)). reqType item < kNumRequestTypes"
    using less.prems(1) st by (simp add: live_inv_def run_inv_def)
  obtain step where ri: "Run_items (items (reqSequence e)) st = Some (Inr step)"
    and ls: "live_step H st step (\<exists>item \<in> set (items (reqSequence e)). reads_item item \<and> 0 < numRequests item)"
    using Run_items_live [OF less.prems(1) ty] by blast
  show ?case
  proof (cases step)
    case (Returned x st')
    then have "x = ExitErrors" using ls by simp
    then have "Run_loop st = Some (Inr (ExitErrors, st'))"
      using ri Returned st by (subst Run_loop.simps) simp
    then show ?thesis by blast
  next
    case (Next st')
    obtain l' e' w' where st': "st' = (l', e', w')" by (cases st')
    have p: "live_inv H st'" "length (client_calls w') > length (client_calls w)" "run_rel st st'"
      using ls Next less.prems(2) st st' by simp_all
    have sq: "reqSequence e' = reqSequence e" using p(3) st st' by (simp add: run_rel_def)
    have "length (client_calls w') < H" using live_inv_calls p(1) st' by blast
    then have n: "H - length (client_calls (snd (snd st'))) < H - length (client_calls (snd (snd st)))"
      using p(2) st st' by simp
    have "Run_loop st = Run_loop st'" using ri Next st by (subst Run_loop.simps) simp
    moreover obtain st'' where "Run_loop st' = Some (Inr (ExitErrors, st''))"
      using less.hyps [OF n p(1)] less.prems(2) sq st st' by auto
    ultimately show ?thesis by metis
  qed
qed

subsection \<open>Run as a whole\<close>

lemma Run_ok:
  assumes nk: "numKeys (recStore e) > 0" and r: "Run e w = Some (Inr (x, (l, e', w')))"
  shows "(x = ExitErrors \<longrightarrow> errCount l = 101 \<and> failures (stats e') = failures (stats e) + 101
                            \<and> last_failed (stats e') \<and> creates w' = creates w)
       \<and> (x = ExitDone \<longrightarrow> errCount l \<le> 100
             \<and> (\<exists>e1 w1. restoreData e1 w1 = (e', w')
                   \<and> int (failures (stats e1)) = int (failures (stats e)) + errCount l))"
proof -
  let ?w0 = "w\<lparr>clock_pos := Suc (clock_pos w)\<rparr>"
  let ?st0 = "(\<lparr>startTime = clock w (clock_pos w), numreq = 0, errCount = 0\<rparr>, e, ?w0)"
  obtain y where rl: "Run_loop ?st0 = Some y"
    using r by (auto simp: Run_def time_Now_def split: option.splits)
  obtain x1 l1 e1 w1 where y: "y = Inr (x1, (l1, e1, w1))"
    using r rl by (cases y) (auto simp: Run_def time_Now_def)
  have ok: "step_ok ?st0 (Returned x1 (l1, e1, w1))"
    using Run_loop_ok [OF rl] nk y by simp
  have cr: "creates ?w0 = creates w" by (simp add: creates_def)
  show ?thesis
  proof (cases x1)
    case ExitErrors
    then have "x = ExitErrors" "l = l1" "e' = e1" "w' = w1"
      using r rl y by (simp_all add: Run_def time_Now_def)
    then show ?thesis using ok ExitErrors cr by (simp add: run_rel_def)
  next
    case ExitDone
    then have "x = ExitDone" "l = l1" "restoreData e1 w1 = (e', w')"
      using r rl y by (auto simp add: Run_def time_Now_def split: prod.splits)
    then show ?thesis using ok ExitDone by (auto simp add: run_rel_def)
  qed
qed

lemma Run_live:
  assumes "numKeys (recStore e) > 0"
    "invokeFuncs e = invokeFuncs (Init e)"
    "101 \<le> failing w (length (client_calls w)) H"
    "\<forall>n. \<not> chDone w n"
    "numReqPerSecond e \<noteq> 0"
    "isVariable (rdgen e) \<longrightarrow> (\<forall>n. getThroughPut w n \<noteq> 0)"
    "\<forall>item \<in> set (items (reqSequence e)). reqType item < kNumRequestTypes"
    "\<exists>item \<in> set (items (reqSequence e)). reads_item item \<and> 0 < numRequests item"
  shows "\<exists>l e' w'. Run e w = Some (Inr (ExitErrors, (l, e', w')))"
proof -
  let ?w0 = "w\<lparr>clock_pos := Suc (clock_pos w)\<rparr>"
  let ?st0 = "(\<lparr>startTime = clock w (clock_pos w), numreq = 0, errCount = 0\<rparr>, e, ?w0)"
  have "failing ?w0 (length (client_calls ?w0)) H = failing w (length (client_calls w)) H"
    by (simp add: failing_def)
  then have "live_inv H ?st0" using assms by (simp add: live_inv_def run_inv_def Init_funcs)
  then obtain st' where "Run_loop ?st0 = Some (Inr (ExitErrors, st'))"
    using Run_loop_live [of H ?st0] assms(8) by auto
  then have "Run e w = Some (Inr (ExitErrors, st'))" by (simp add: Run_def time_Now_def)
  then show ?thesis by (cases st') auto
qed

text \<open>A client whose calls all fail: the first 101 calls of the run are 101 errors.\<close>

lemma Run_always_fails:
  assumes "numKeys (recStore e) > 0"
    "invokeFuncs e = invokeFuncs (Init e)"
    "always_fails w"
    "\<forall>n. \<not> chDone w n"
    "numReqPerSecond e \<noteq> 0"
    "isVariable (rdgen e) \<longrightarrow> (\<forall>n. getThroughPut w n \<noteq> 0)"
    "\<forall>item \<in> set (items (reqSequence e)). reqType item < kNumRequestTypes"
    "\<exists>item \<in> set (items (reqSequence e)). reads_item item \<and> 0 < numRequests item"
  shows "\<exists>l e' w'. Run e w = Some (Inr (ExitErrors, (l, e', w'))) \<and> errCount l = 101
           \<and> failures (stats e') = failures (stats e) + 101 \<and> creates w' = creates w"
proof -
  have "failing w (length (client_calls w)) (length (client_calls w) + 101) = 101"
    using assms(3) by (intro failing_all) (simp add: always_fails_def)
  then have "101 \<le> failing w (length (client_calls w)) (length (client_calls w) + 101)"
    by simp
  from Run_live [OF assms(1,2) this assms(4-8)]
  obtain l e' w' where r: "Run e w = Some (Inr (ExitErrors, (l, e', w')))"
    by blast
  then show ?thesis using Run_ok [OF assms(1) r] by auto
qed

lemma failing_two_ok: "failing world_two_ok 0 103 = 101"
  by code_simp

lemma Run_loop_pass:
  assumes "Run_items (items (reqSequence (fst (snd st)))) st = Some (Inr (Next st'))"
  shows "Run_loop st = Run_loop st'"
  using assms by (subst Run_loop.simps) simp

lemma engine0_fields:
  "engine0 = \<lparr>rdgen = \<lparr>isVariable = False, disableGetTTL = False\<rparr>,
                recStore = store0,
                reqSequence = \<lparr>items = [\<lparr>reqType = kRequestTypeGet, numRequests = 1\<rparr>]\<rparr>,
                invokeFuncs = [Some FnCreate, Some FnGet, Some FnUpdate, Some FnSet, Some FnDestroy],
                stats = \<lparr>samples = [], tmStart = 0\<rparr>,
                movingStats = \<lparr>samples = [], tmStart = 0\<rparr>,
                numReqPerSecond = 1000\<rparr>"
  by (simp add: engine0_def Init_def kNumRequestTypes_def kRequestTypeCreate_def kRequestTypeGet_def
        kRequestTypeUpdate_def kRequestTypeSet_def kRequestTypeDestroy_def replicate_5_update)

lemma two_ops:
  "(case Run_items (items (reqSequence engine0))
            (\<lparr>startTime = 0, numreq = 0, errCount = 0\<rparr>, engine0, world_fsf\<lparr>clock_pos := 1\<rparr>) of
      Some (Inr (Next st1)) \<Rightarrow>
        reqSequence (fst (snd st1)) = reqSequence engine0
        \<and> (case Run_items (items (reqSequence engine0)) st1 of
              Some (Inr (Next st2)) \<Rightarrow>
                reqSequence (fst (snd st2)) = reqSequence engine0
                \<and> (run_inv st2 \<and> always_fails (snd (snd st2)))
                \<and> map (\<lambda>x. snd (snd x)) (samples (stats (fst (snd st2)))) = [Some ''fail'', None]
            | _ \<Rightarrow> False)
    | _ \<Rightarrow> False)"
  by (simp add: engine0_fields store0_def world_fsf_def world0_def
        Run_requests.simps Run_select_def Run_default_def Run_account_def Run_pace_def
        time_Now_def invoke_def invokeGet_def invokeWithGet_preloaded Let_def
        checkSpeedDelayIfNeeded_def checkSpeed_def GetNumRequests_def Put_def
        kRequestTypeGet_def kRequestTypeCreate_def kRequestTypeDestroy_def kNumRequestTypes_def
        run_inv_def always_fails_def)


lemma consecutive_fold_bound:
  "fold (\<lambda>err c. if err \<noteq> None then Suc c else 0) xs c \<le> c + length (filter (\<lambda>x. x \<noteq> None) xs)"
proof (induction xs arbitrary: c)
  case Nil
  then show ?case by simp
next
  case (Cons x xs)
  show ?case
  proof (cases "x = None")
    case True
    then show ?thesis using Cons [of 0] by simp
  next
    case False
    then show ?thesis using Cons [of "Suc c"] by simp
  qed
qed

lemma case_Next_obtain:
  assumes "(case r of Some (Inr (Next st)) \<Rightarrow> P st | _ \<Rightarrow> False)"
  obtains st where "r = Some (Inr (Next st))" "P st"
  using assms by (auto split: option.splits sum.splits Step.splits)

subsection \<open>float64 at \<open>2^53\<close>\<close>

text \<open>Scaling by a power of two commutes with rounding, a number that is a whole multiple
  of its unit in the last place is not changed by rounding, and \<open>2^53 + 1\<close>, half-way between
  \<open>2^53\<close> and \<open>2^53 + 2\<close>, rounds to \<open>2^53\<close>. So at \<open>n = m = 2^53\<close> the float64 term is
  \<open>2^53\<close> for every non-zero float64 value of \<open>math.Log(2^53)\<close>. Over the reals the
  transform of the specification stays in \<open>[0, n)\<close>.\<close>

lemma f64_ulp_pos: "0 < f64_ulp x"
  by (simp add: f64_ulp_def)

lemma f64_ulp_scale:
  assumes "x \<noteq> 0"
  shows "f64_ulp (2 ^ k * x) = 2 ^ k * f64_ulp x"
proof -
  have "log 2 \<bar>2 ^ k * x\<bar> = real k + log 2 \<bar>x\<bar>"
    using assms by (simp add: abs_mult log_mult log_nat_power)
  hence "\<lfloor>log 2 \<bar>2 ^ k * x\<bar>\<rfloor> = int k + \<lfloor>log 2 \<bar>x\<bar>\<rfloor>"
    by simp
  hence "f64_ulp (2 ^ k * x) = 2 powr (real k + of_int (\<lfloor>log 2 \<bar>x\<bar>\<rfloor> - 52))"
    by (simp add: f64_ulp_def algebra_simps)
  also have "\<dots> = 2 powr (real k) * f64_ulp x"
    unfolding f64_ulp_def by (rule powr_add)
  also have "2 powr (real k) = (2::real) ^ k"
    by (simp add: powr_realpow)
  finally show ?thesis .
qed

lemma f64_round_scale: "f64_round (2 ^ k * x) = 2 ^ k * f64_round x"
proof (cases "x = 0")
  case True
  then show ?thesis by (simp add: f64_round_def)
next
  case False
  have "(2 ^ k * x) / f64_ulp (2 ^ k * x) = x / f64_ulp x"
    using False by (simp add: f64_ulp_scale)
  then show ?thesis
    using False by (simp add: f64_round_def f64_ulp_scale)
qed

lemma round_half_even_int: "round_half_even (of_int z) = z"
  by (simp add: round_half_even_def)

lemma f64_round_exact:
  assumes "x / f64_ulp x = of_int z"
  shows "f64_round x = x"
proof (cases "x = 0")
  case True
  then show ?thesis by (simp add: f64_round_def)
next
  case False
  have "of_int z * f64_ulp x = x"
    using assms f64_ulp_pos [of x] by (simp add: field_simps)
  then show ?thesis
    using False assms by (simp add: f64_round_def round_half_even_int)
qed

lemma floor_log2_eq:
  assumes "0 < x" "2 ^ k \<le> x" "x < 2 ^ Suc k"
  shows "\<lfloor>log 2 x\<rfloor> = int k"
proof -
  have "real k \<le> log 2 x"
    using assms by (simp add: le_log_iff powr_realpow)
  moreover have "log 2 x < real k + 1"
    using assms by (simp add: log_less_iff powr_realpow powr_add)
  ultimately show ?thesis
    by (simp add: floor_eq_iff)
qed

lemma f64_ulp_2p53: "f64_ulp (2 ^ 53) = 2"
proof -
  have "\<lfloor>log 2 \<bar>2 ^ 53 :: real\<bar>\<rfloor> = int 53"
    by (rule floor_log2_eq) simp_all
  then show ?thesis
    by (simp add: f64_ulp_def)
qed

lemma f64_ulp_2p53_1: "f64_ulp (2 ^ 53 + 1) = 2"
proof -
  have "\<lfloor>log 2 \<bar>2 ^ 53 + 1 :: real\<bar>\<rfloor> = int 53"
    by (rule floor_log2_eq) simp_all
  then show ?thesis
    by (simp add: f64_ulp_def)
qed

lemma f64_round_2p53: "f64_round (2 ^ 53) = 2 ^ 53"
  by (rule f64_round_exact [where z = "2 ^ 52"]) (use f64_ulp_2p53 in simp)

lemma round_half_even_tie: "even z \<Longrightarrow> round_half_even (of_int z + 1 / 2) = z"
proof -
  have "\<lfloor>of_int z + 1 / 2 :: real\<rfloor> = z"
    by (simp add: floor_eq_iff)
  then show "even z \<Longrightarrow> round_half_even (of_int z + 1 / 2) = z"
    by (simp add: round_half_even_def Let_def)
qed

lemma f64_round_2p53_1: "f64_round (2 ^ 53 + 1) = 2 ^ 53"
proof -
  have "(2 ^ 53 + 1 :: real) / 2 = of_int (2 ^ 52) + 1 / 2"
    by simp
  hence "round_half_even ((2 ^ 53 + 1) / 2) = 2 ^ 52"
    using round_half_even_tie [of "2 ^ 52"] by simp
  then show ?thesis
    using f64_ulp_2p53_1 by (simp add: f64_round_def)
qed

lemma wrap64_2p53_1: "wrap64 (2 ^ 53 + 1) = 2 ^ 53 + 1"
  by (simp add: wrap64_def)


lemma f64_term_2p53:
  assumes "f64_round (lg (2 ^ 53)) = lg (2 ^ 53)" "lg (2 ^ 53) \<noteq> 0"
  shows "f64_term lg (2 ^ 53) (2 ^ 53) = Some (2 ^ 53)"
proof -
  have a: "f64_of_int (2 ^ 53) = 2 ^ 53"
    using f64_round_2p53 by (simp add: f64_of_int_def)
  have b: "f64_of_int (wrap64 (2 ^ 53 + 1)) = 2 ^ 53"
    using f64_round_2p53_1 wrap64_2p53_1 by (simp add: f64_of_int_def)
  have c: "f64_mul (2 ^ 53) (lg (2 ^ 53)) = 2 ^ 53 * lg (2 ^ 53)"
    unfolding f64_mul_def f64_round_scale assms(1) ..
  have d: "f64_div (2 ^ 53 * lg (2 ^ 53)) (lg (2 ^ 53)) = Some (2 ^ 53)"
    using assms(2) f64_round_2p53 by (simp add: f64_div_def)
  have e: "f64_to_int (2 ^ 53) = Some (2 ^ 53)"
    by (simp add: f64_to_int_def)
  show ?thesis
    unfolding f64_term_def a b c d using e by simp
qed

lemma f64_ulp_147: "f64_ulp (147 / 4) = 1 / 2 ^ 47"
proof -
  have "\<lfloor>log 2 \<bar>147 / 4 :: real\<bar>\<rfloor> = int 5"
    by (rule floor_log2_eq) simp_all
  then show ?thesis
    by (simp add: f64_ulp_def powr_minus_divide powr_realpow [symmetric])
qed

lemma f64_round_147: "f64_round (147 / 4) = 147 / 4"
  by (rule f64_round_exact [where z = "147 * 2 ^ 45"]) (simp add: f64_ulp_147)


lemma f64_normal_147: "f64_normal (147 / 4)"
  using f64_round_147 by (simp add: f64_normal_def)

lemma f64_normal_147_scaled: "f64_normal (2 ^ 53 * (147 / 4))"
  unfolding f64_normal_def f64_round_scale f64_round_147 by simp

lemma sampleSkewed_spec_range:
  assumes "1 \<le> m" "m \<le> n"
  shows "0 \<le> sampleSkewed_spec n m \<and> sampleSkewed_spec n m < n"
proof -
  let ?q = "of_int n * ln (of_int m) / ln (of_int (n + 1)) :: real"
  have l0: "0 \<le> ln (of_int m :: real)"
    using assms by simp
  have l1: "ln (of_int m :: real) < ln (of_int (n + 1))"
    using assms by simp
  have lp: "0 < ln (of_int (n + 1) :: real)"
    using l0 l1 by linarith
  have q0: "0 \<le> ?q"
    using l0 lp assms by simp
  have "of_int n * ln (of_int m :: real) < of_int n * ln (of_int (n + 1))"
    using l1 assms by simp
  hence q1: "?q < of_int n"
    using lp by (simp add: field_simps)
  have "0 \<le> \<lfloor>?q\<rfloor>"
    using q0 by simp
  moreover have "\<lfloor>?q\<rfloor> < n"
    using q1 by (simp add: floor_less_iff)
  ultimately show ?thesis
    unfolding sampleSkewed_spec_def by linarith
qed

section \<open>The claims\<close>

text \<open>
  C1, as amended. On a preloaded store every recorded failed operation adds one to
  \<open>errCount\<close>, and nothing resets it. When \<open>Run\<close> returns, it has left through the
  error-count return exactly when \<open>errCount\<close> is 101, with 101 failures recorded during the
  run, the operation recorded last being one of them, and no create issued (no
  restoration); it has left through the done channel with \<open>errCount \<le> 100\<close>, and then
  \<open>restoreData\<close> has run. With the dispatch table of \<open>Init\<close>, known request types, a non-zero
  rate, no receive on the done channel, a get, update or set item with a positive count,
  and a client whose responses to the calls still to come hold at least 101 errors, with
  successful responses anywhere between them, \<open>Run\<close> does return, through the error-count
  return, at the 101st recorded failure. A client whose calls all fail is the case
  \<open>H = 101\<close> of a run that starts with no call made.
\<close>

theorem Run_error_threshold:
  assumes "numKeys (recStore e) > 0"
  shows "(Run e w = Some (Inr (x, (l, e', w'))) \<longrightarrow>
            (x = ExitErrors \<longrightarrow> errCount l = 101 \<and> failures (stats e') = failures (stats e) + 101
                                \<and> last_failed (stats e') \<and> creates w' = creates w)
          \<and> (x = ExitDone \<longrightarrow> errCount l \<le> 100
                \<and> (\<exists>e1 w1. restoreData e1 w1 = (e', w')
                      \<and> int (failures (stats e1)) = int (failures (stats e)) + errCount l)))
       \<and> (invokeFuncs e = invokeFuncs (Init e)
            \<and> 101 \<le> failing w (length (client_calls w)) H
            \<and> (\<forall>n. \<not> chDone w n)
            \<and> numReqPerSecond e \<noteq> 0
            \<and> (isVariable (rdgen e) \<longrightarrow> (\<forall>n. getThroughPut w n \<noteq> 0))
            \<and> (\<forall>item \<in> set (items (reqSequence e)). reqType item < kNumRequestTypes)
            \<and> (\<exists>item \<in> set (items (reqSequence e)). reads_item item \<and> 0 < numRequests item)
          \<longrightarrow> (\<exists>l1 e1 w1. Run e w = Some (Inr (ExitErrors, (l1, e1, w1))) \<and> errCount l1 = 101
                  \<and> failures (stats e1) = failures (stats e) + 101 \<and> last_failed (stats e1)
                  \<and> creates w1 = creates w))"
proof (intro conjI impI)
  assume r: "Run e w = Some (Inr (x, (l, e', w')))"
  note ok = Run_ok [OF assms r]
  show "x = ExitErrors \<Longrightarrow> errCount l = 101" using ok by simp
  show "x = ExitErrors \<Longrightarrow> failures (stats e') = failures (stats e) + 101" using ok by simp
  show "x = ExitErrors \<Longrightarrow> last_failed (stats e')" using ok by simp
  show "x = ExitErrors \<Longrightarrow> creates w' = creates w" using ok by simp
  show "x = ExitDone \<Longrightarrow> errCount l \<le> 100" using ok by simp
  show "x = ExitDone \<Longrightarrow> \<exists>e1 w1. restoreData e1 w1 = (e', w')
                      \<and> int (failures (stats e1)) = int (failures (stats e)) + errCount l"
    using ok by simp
next
  assume h: "invokeFuncs e = invokeFuncs (Init e)
            \<and> 101 \<le> failing w (length (client_calls w)) H
            \<and> (\<forall>n. \<not> chDone w n)
            \<and> numReqPerSecond e \<noteq> 0
            \<and> (isVariable (rdgen e) \<longrightarrow> (\<forall>n. getThroughPut w n \<noteq> 0))
            \<and> (\<forall>item \<in> set (items (reqSequence e)). reqType item < kNumRequestTypes)
            \<and> (\<exists>item \<in> set (items (reqSequence e)). reads_item item \<and> 0 < numRequests item)"
  then obtain l1 e1 w1 where r: "Run e w = Some (Inr (ExitErrors, (l1, e1, w1)))"
    using Run_live [OF assms, of w H] by blast
  from Run_ok [OF assms r] r
  show "\<exists>l1 e1 w1. Run e w = Some (Inr (ExitErrors, (l1, e1, w1))) \<and> errCount l1 = 101
                  \<and> failures (stats e1) = failures (stats e) + 101 \<and> last_failed (stats e1)
                  \<and> creates w1 = creates w"
    by simp
qed

theorem Run_error_threshold_witness:
  "numKeys (recStore engine0) > 0
   \<and> invokeFuncs engine0 = invokeFuncs (Init engine0)
   \<and> snd (client_resp world_two_ok 1) = None
   \<and> snd (client_resp world_two_ok 2) = None
   \<and> 101 \<le> failing world_two_ok (length (client_calls world_two_ok)) 103
   \<and> (\<forall>n. \<not> chDone world_two_ok n)
   \<and> numReqPerSecond engine0 \<noteq> 0
   \<and> \<not> isVariable (rdgen engine0)
   \<and> (\<exists>item \<in> set (items (reqSequence engine0)). reads_item item \<and> 0 < numRequests item)
   \<and> (\<exists>l1 e1 w1. Run engine0 world_two_ok = Some (Inr (ExitErrors, (l1, e1, w1))) \<and> errCount l1 = 101
          \<and> failures (stats e1) = 101 \<and> last_failed (stats e1) \<and> creates w1 = [])"
proof -
  have c: "length (client_calls world_two_ok) = 0"
    by (simp add: world_two_ok_def world0_def)
  have h: "numKeys (recStore engine0) > 0"
    "invokeFuncs engine0 = invokeFuncs (Init engine0)"
    "101 \<le> failing world_two_ok (length (client_calls world_two_ok)) 103"
    "\<forall>n. \<not> chDone world_two_ok n"
    "numReqPerSecond engine0 \<noteq> 0"
    "\<not> isVariable (rdgen engine0)"
    "\<forall>item \<in> set (items (reqSequence engine0)). reqType item < kNumRequestTypes"
    "\<exists>item \<in> set (items (reqSequence engine0)). reads_item item \<and> 0 < numRequests item"
    "failures (stats engine0) = 0" "creates world_two_ok = []"
    "snd (client_resp world_two_ok 1) = None" "snd (client_resp world_two_ok 2) = None"
    unfolding c failing_two_ok
    by (simp_all add: engine0_def Init_def store0_def world_two_ok_def world0_def reads_item_def
          kRequestTypeGet_def kNumRequestTypes_def failures_def creates_def)
  show ?thesis
    using Run_error_threshold [where e = engine0 and w = world_two_ok and H = 103] h by auto
qed

text \<open>C1 as stated fails: a client that fails, succeeds once and fails from then on ends
  the run at the 101st recorded failure, when the consecutive-error counter of the
  specification stands at 100 and has never exceeded it.\<close>

theorem Run_consecutive_counterexample:
  "(case Run engine0 world_fsf of
      Some (Inr (ExitErrors, (l, e', w'))) \<Rightarrow>
        errCount l = 101 \<and> failures (stats e') = 101
        \<and> consecutive_errors (map (\<lambda>x. snd (snd x)) (samples (stats e'))) \<le> 100
    | _ \<Rightarrow> False)"
proof -
  let ?st0 = "(\<lparr>startTime = 0, numreq = 0, errCount = 0\<rparr>, engine0, world_fsf\<lparr>clock_pos := 1\<rparr>)"
  obtain st1 st2 where
    p1: "Run_items (items (reqSequence engine0)) ?st0 = Some (Inr (Next st1))"
    and q1: "reqSequence (fst (snd st1)) = reqSequence engine0"
    and p2: "Run_items (items (reqSequence engine0)) st1 = Some (Inr (Next st2))"
    and q2: "reqSequence (fst (snd st2)) = reqSequence engine0"
    and li: "run_inv st2 \<and> always_fails (snd (snd st2))"
    and sm: "map (\<lambda>x. snd (snd x)) (samples (stats (fst (snd st2)))) = [Some ''fail'', None]"
  proof -
    from two_ops obtain st1 where
      a: "Run_items (items (reqSequence engine0)) ?st0 = Some (Inr (Next st1))"
      and b: "reqSequence (fst (snd st1)) = reqSequence engine0
        \<and> (case Run_items (items (reqSequence engine0)) st1 of
              Some (Inr (Next st2)) \<Rightarrow>
                reqSequence (fst (snd st2)) = reqSequence engine0
                \<and> (run_inv st2 \<and> always_fails (snd (snd st2)))
                \<and> map (\<lambda>x. snd (snd x)) (samples (stats (fst (snd st2)))) = [Some ''fail'', None]
            | _ \<Rightarrow> False)"
      by (rule case_Next_obtain)
    from conjunct2 [OF b] obtain st2 where
      c: "Run_items (items (reqSequence engine0)) st1 = Some (Inr (Next st2))"
      and d: "reqSequence (fst (snd st2)) = reqSequence engine0
                \<and> (run_inv st2 \<and> always_fails (snd (snd st2)))
                \<and> map (\<lambda>x. snd (snd x)) (samples (stats (fst (snd st2)))) = [Some ''fail'', None]"
      by (rule case_Next_obtain)
    show ?thesis using that [OF a conjunct1 [OF b] c] d by blast
  qed
  have "Run_loop ?st0 = Run_loop st1" using p1 by (intro Run_loop_pass) simp
  also have "\<dots> = Run_loop st2" using p2 q1 by (intro Run_loop_pass) simp
  finally have l02: "Run_loop ?st0 = Run_loop st2" .
  have rd: "\<exists>item \<in> set (items (reqSequence (fst (snd st2)))). reads_item item \<and> 0 < numRequests item"
    by (simp add: q2 engine0_fields reads_item_def)
  obtain H where lv: "live_inv H st2"
    using always_fails_live li by (cases st2) auto
  obtain st' where l2: "Run_loop st2 = Some (Inr (ExitErrors, st'))"
    using Run_loop_live [OF lv rd] by blast
  obtain l e' w' where st': "st' = (l, e', w')" by (cases st')
  have run: "Run engine0 world_fsf = Some (Inr (ExitErrors, (l, e', w')))"
    using l02 l2 st' by (simp add: Run_def time_Now_def world_fsf_def world0_def)
  have nk: "numKeys (recStore engine0) > 0" by (simp add: engine0_fields store0_def)
  have cnt: "errCount l = 101" "failures (stats e') = 101"
    using Run_ok [OF nk run] by (simp_all add: engine0_fields failures_def)
  obtain l2' e2 w2 where st2: "st2 = (l2', e2, w2)" by (cases st2)
  have "step_ok st2 (Returned ExitErrors st')"
    using Run_loop_ok [OF l2] li st2 st' by (simp add: run_inv_def)
  then obtain ys where ys: "samples (stats e') = samples (stats e2) @ ys"
    using st2 st' by (auto simp: run_rel_def)
  let ?errs = "map (\<lambda>x. snd (snd x)) ys"
  have errs: "map (\<lambda>x. snd (snd x)) (samples (stats e')) = [Some ''fail'', None] @ ?errs"
    using ys sm st2 by simp
  have "failures (stats e') = length (filter (\<lambda>x. x \<noteq> None) (map (\<lambda>x. snd (snd x)) (samples (stats e'))))"
    by (simp add: failures_def filter_map o_def)
  then have "length (filter (\<lambda>x. x \<noteq> None) ?errs) = 100"
    using cnt(2) unfolding errs by simp
  moreover have "consecutive_errors ([Some ''fail'', None] @ ?errs)
                   = fold (\<lambda>err c. if err \<noteq> None then Suc c else 0) ?errs 0"
    by (simp add: consecutive_errors_def)
  ultimately have "consecutive_errors (map (\<lambda>x. snd (snd x)) (samples (stats e'))) \<le> 100"
    using consecutive_fold_bound [of ?errs 0] unfolding errs by simp
  then show ?thesis using run cnt by simp
qed

text \<open>
  C2. \<open>invoke\<close> guards the dispatch table with \<open>t > kNumRequestTypes\<close>, so the value
  \<open>kNumRequestTypes\<close> itself passes the guard and indexes the five-element slice built by
  \<open>Init\<close> out of range: the process ends with a run-time panic, not with the
  unsupported-type exit.
\<close>

theorem invoke_kNumRequestTypes_panics:
  "invoke (Init e) kNumRequestTypes w = Some (Inl PanicIndexOutOfRange)"
  by (simp add: invoke_def Init_def kNumRequestTypes_def)

text \<open>
  C3. On a preloaded store with \<open>numKeys = K \<ge> 1\<close> and the delete cursor at 0, \<open>n\<close>
  successive calls of \<open>Take\<close> all return; call \<open>i\<close> (from 0) succeeds with the key
  synthesized at \<open>offsetDel + i\<close> exactly when \<open>i < min K MaxDeletes\<close> and fails with
  "no unexpired record" otherwise; the cursor ends at \<open>min n (min K MaxDeletes)\<close>;
  \<open>LastDelete\<close> is set once the \<open>min K MaxDeletes\<close>-th call has been made, and from then on
  the store is delete-exhausted.
\<close>

theorem Take_preloaded_count:
  assumes "numKeys s = K" "K \<ge> 1" "nextDelete s = 0"
  shows "Take_repeat n s w =
           Some (Inr (map (\<lambda>i. if int i < min K MaxDeletes
                               then (\<lparr>key = NewRandomKey (offsetDel s + int i), ctx = None\<rparr>, None)
                               else (zeroRecord, Some ''no unexpired record'')) [0..<n],
                      s\<lparr>nextDelete := min (int n) (min K MaxDeletes),
                        LastDelete := (LastDelete s \<or> min K MaxDeletes \<le> int n)\<rparr>, w))
         \<and> (endOfDelete (s\<lparr>nextDelete := min (int n) (min K MaxDeletes),
                            LastDelete := (LastDelete s \<or> min K MaxDeletes \<le> int n)\<rparr>)
              \<longleftrightarrow> min K MaxDeletes \<le> int n)"
proof -
  have p: "numKeys s > 0" "0 \<le> nextDelete s" "nextDelete s \<le> min (numKeys s) MaxDeletes"
    using assms by (simp_all add: MaxDeletes_def)
  have B: "0 < min K MaxDeletes" using assms by (simp add: MaxDeletes_def)
  have f: "nth_take s (nextDelete s) = (\<lambda>i. if int i < min K MaxDeletes
                               then (\<lparr>key = NewRandomKey (offsetDel s + int i), ctx = None\<rparr>, None)
                               else (zeroRecord, Some ''no unexpired record''))"
    using assms by (intro ext) (simp add: nth_take_def)
  have g: "(nextDelete s < min (numKeys s) MaxDeletes \<and> min (numKeys s) MaxDeletes \<le> nextDelete s + int n)
            = (min K MaxDeletes \<le> int n)"
    using assms B by simp
  have h: "min (nextDelete s + int n) (min (numKeys s) MaxDeletes) = min (int n) (min K MaxDeletes)"
    using assms by simp
  have 1: ?thesis if "Take_repeat n s w = Some (Inr (map (nth_take s (nextDelete s)) [0..<n],
                s\<lparr>nextDelete := min (nextDelete s + int n) (min (numKeys s) MaxDeletes),
                  LastDelete := (LastDelete s \<or> (nextDelete s < min (numKeys s) MaxDeletes \<and> min (numKeys s) MaxDeletes \<le> nextDelete s + int n))\<rparr>, w))"
    using that assms unfolding f g h by (auto simp: endOfDelete_def)
  show ?thesis by (rule 1) (rule Take_repeat_preloaded [OF p])
qed

theorem Take_preloaded_count_witness:
  "numKeys store0 = 3 \<and> (3::int) \<ge> 1 \<and> nextDelete store0 = 0
   \<and> Take_repeat 5 store0 world0 =
       Some (Inr ([(\<lparr>key = NewRandomKey 7, ctx = None\<rparr>, None),
                   (\<lparr>key = NewRandomKey 8, ctx = None\<rparr>, None),
                   (\<lparr>key = NewRandomKey 9, ctx = None\<rparr>, None),
                   (zeroRecord, Some ''no unexpired record''),
                   (zeroRecord, Some ''no unexpired record'')],
                  store0\<lparr>nextDelete := 3, LastDelete := True\<rparr>, world0))
   \<and> endOfDelete (store0\<lparr>nextDelete := 3, LastDelete := True\<rparr>)"
  using Take_preloaded_count [of store0 3 5 world0]
  by (simp add: store0_def MaxDeletes_def upt_5)

text \<open>
  C4. \<open>restoreData\<close> issues, on a preloaded store, exactly one create for each index
  \<open>i\<close> in \<open>[0, nextDelete)\<close>, in order, with the key synthesized at \<open>offsetDel + i\<close>, and no
  create at all when \<open>numKeys \<le> 0\<close> or \<open>nextDelete \<le> 0\<close>. When the store was reached by
  successive \<open>Take\<close> calls from a cursor at 0, these are exactly the keys the successful calls
  returned, in the same order.
\<close>

theorem restoreData_recreates_taken:
  "client_calls (snd (restoreData e w)) =
     client_calls w @
       (if numKeys (recStore e) > 0
        then map (\<lambda>i. CallCreate (NewRandomKey (offsetDel (recStore e) + int i)))
               [0..<nat (nextDelete (recStore e))]
        else [])
   \<and> (numKeys s \<ge> 1 \<and> nextDelete s = 0 \<and> Take_repeat n s w1 = Some (Inr (rs, recStore e, w2))
        \<longrightarrow> client_calls (snd (restoreData e w)) =
              client_calls w @ map (\<lambda>r. CallCreate (key (fst r))) (filter (\<lambda>r. snd r = None) rs))"
proof
  show c: "client_calls (snd (restoreData e w)) =
     client_calls w @
       (if numKeys (recStore e) > 0
        then map (\<lambda>i. CallCreate (NewRandomKey (offsetDel (recStore e) + int i)))
               [0..<nat (nextDelete (recStore e))]
        else [])"
    by (rule restoreData_calls)
  show "numKeys s \<ge> 1 \<and> nextDelete s = 0 \<and> Take_repeat n s w1 = Some (Inr (rs, recStore e, w2))
        \<longrightarrow> client_calls (snd (restoreData e w)) =
              client_calls w @ map (\<lambda>r. CallCreate (key (fst r))) (filter (\<lambda>r. snd r = None) rs)"
  proof
    assume a: "numKeys s \<ge> 1 \<and> nextDelete s = 0 \<and> Take_repeat n s w1 = Some (Inr (rs, recStore e, w2))"
    define B where "B = min (numKeys s) MaxDeletes"
    have p: "numKeys s > 0" "0 \<le> nextDelete s" "nextDelete s \<le> min (numKeys s) MaxDeletes"
      using a by (simp_all add: MaxDeletes_def)
    have B0: "0 < B" using a by (simp add: B_def MaxDeletes_def)
    note tr = Take_repeat_preloaded [OF p, of n w1]
    have rs: "rs = map (nth_take s 0) [0..<n]" using tr a by simp
    have st: "recStore e = s\<lparr>nextDelete := min (int n) B,
                  LastDelete := (LastDelete s \<or> B \<le> int n)\<rparr>"
      using tr a B0 unfolding B_def by simp
    have ok: "(snd (nth_take s 0 i) = None) = (int i < B)" for i
      by (simp add: nth_take_def B_def)
    have k: "int i < B \<Longrightarrow> key (fst (nth_take s 0 i)) = NewRandomKey (offsetDel s + int i)" for i
      by (simp add: nth_take_def B_def)
    have "map (\<lambda>r. CallCreate (key (fst r))) (filter (\<lambda>r. snd r = None) rs)
          = map (\<lambda>i. CallCreate (key (fst (nth_take s 0 i)))) (filter (\<lambda>i. int i < B) [0..<n])"
      unfolding rs by (simp add: filter_map o_def ok)
    also have "\<dots> = map (\<lambda>i. CallCreate (NewRandomKey (offsetDel s + int i))) (filter (\<lambda>i. int i < B) [0..<n])"
      by (rule map_cong) (simp_all add: k)
    also have "\<dots> = map (\<lambda>i. CallCreate (NewRandomKey (offsetDel s + int i))) [0..<min n (nat B)]"
      by (simp only: filter_upt_less)
    finally have m: "map (\<lambda>r. CallCreate (key (fst r))) (filter (\<lambda>r. snd r = None) rs)
          = map (\<lambda>i. CallCreate (NewRandomKey (offsetDel s + int i))) [0..<min n (nat B)]" .
    have nd: "nat (nextDelete (recStore e)) = min n (nat B)" using B0 by (simp add: st)
    have nk: "numKeys (recStore e) > 0" "offsetDel (recStore e) = offsetDel s" using p by (simp_all add: st)
    show "client_calls (snd (restoreData e w)) =
              client_calls w @ map (\<lambda>r. CallCreate (key (fst r))) (filter (\<lambda>r. snd r = None) rs)"
      unfolding c m using nk nd by simp
  qed
qed

theorem restoreData_recreates_taken_witness:
  "client_calls (snd (restoreData (engine0\<lparr>recStore := store0\<lparr>nextDelete := 3, LastDelete := True\<rparr>\<rparr>) world0)) =
     [CallCreate (NewRandomKey 7), CallCreate (NewRandomKey 8), CallCreate (NewRandomKey 9)]
   \<and> numKeys store0 \<ge> 1 \<and> nextDelete store0 = 0
   \<and> Take_repeat 5 store0 world0 =
       Some (Inr ([(\<lparr>key = NewRandomKey 7, ctx = None\<rparr>, None),
                   (\<lparr>key = NewRandomKey 8, ctx = None\<rparr>, None),
                   (\<lparr>key = NewRandomKey 9, ctx = None\<rparr>, None),
                   (zeroRecord, Some ''no unexpired record''),
                   (zeroRecord, Some ''no unexpired record'')],
                  store0\<lparr>nextDelete := 3, LastDelete := True\<rparr>, world0))"
proof -
  have t: "Take_repeat 5 store0 world0 =
       Some (Inr ([(\<lparr>key = NewRandomKey 7, ctx = None\<rparr>, None),
                   (\<lparr>key = NewRandomKey 8, ctx = None\<rparr>, None),
                   (\<lparr>key = NewRandomKey 9, ctx = None\<rparr>, None),
                   (zeroRecord, Some ''no unexpired record''),
                   (zeroRecord, Some ''no unexpired record'')],
                  store0\<lparr>nextDelete := 3, LastDelete := True\<rparr>, world0))"
    using Take_repeat_preloaded [of store0 5 world0]
    by (simp add: store0_def MaxDeletes_def upt_5 nth_take_def)
  have u: "[0..<3] = [0, 1, 2]" by code_simp
  show ?thesis
    using restoreData_recreates_taken [of "engine0\<lparr>recStore := store0\<lparr>nextDelete := 3, LastDelete := True\<rparr>\<rparr>" world0
        store0 5 world0 "[(\<lparr>key = NewRandomKey 7, ctx = None\<rparr>, None),
                   (\<lparr>key = NewRandomKey 8, ctx = None\<rparr>, None),
                   (\<lparr>key = NewRandomKey 9, ctx = None\<rparr>, None),
                   (zeroRecord, Some ''no unexpired record''),
                   (zeroRecord, Some ''no unexpired record'')]" world0] t
    by (simp add: store0_def world0_def u)
qed

text \<open>
  C5, as amended. On a preloaded store \<open>getRecord\<close> hands \<open>expRand\<close> the full range
  \<open>numKeys\<close> when \<open>numKeys < MaxDeletes\<close>, and a quarter of it, \<open>numKeys div 4\<close>, when
  \<open>numKeys \<ge> MaxDeletes\<close>: the range is already narrowed at \<open>numKeys = MaxDeletes\<close>.
\<close>

theorem getRecord_range:
  assumes "numKeys s > 0"
  shows "getRecord s w =
           (case expRand (if numKeys s \<ge> MaxDeletes then numKeys s div 4 else numKeys s) w of
              Inl f \<Rightarrow> Inl f
            | Inr (k, w') \<Rightarrow>
                Inr ((\<lparr>key = NewRandomKey (offsetGet s + k), ctx = None\<rparr>, None), s\<lparr>currGet := k\<rparr>, w'))
         \<and> getRecord_count s = (if numKeys s \<ge> MaxDeletes then numKeys s div 4 else numKeys s)"
  using assms by (simp add: getRecord_def getRecord_count_def drop_bit_eq_div)

theorem getRecord_range_witness:
  "numKeys store_10000 > 0
   \<and> getRecord store_10000 world0 =
       Inr ((\<lparr>key = NewRandomKey 2499, ctx = None\<rparr>, None), store_10000\<lparr>currGet := 2499\<rparr>,
            world0\<lparr>rand_pos := 1\<rparr>)
   \<and> getRecord_count store_10000 = 2500"
  using getRecord_range [of store_10000 world0]
  by (simp add: store_10000_def world0_def MaxDeletes_def expRand_def rand_Intn_def wrap64_id)

text \<open>C5 as stated fails at \<open>numKeys = MaxDeletes = 10000\<close>, which does not exceed
  \<open>MaxDeletes\<close>: the range sampled is 2500, not 10000.\<close>

theorem getRecord_full_range_counterexample:
  "numKeys store_10000 > 0 \<and> numKeys store_10000 \<le> MaxDeletes
   \<and> getRecord_count store_10000 = 2500
   \<and> getRecord_count store_10000 \<noteq> numKeys store_10000
   \<and> getRecord store_10000 world0 =
       Inr ((\<lparr>key = NewRandomKey 2499, ctx = None\<rparr>, None), store_10000\<lparr>currGet := 2499\<rparr>,
            world0\<lparr>rand_pos := 1\<rparr>)"
  by (simp add: store_10000_def world0_def MaxDeletes_def getRecord_def getRecord_count_def
        drop_bit_eq_div expRand_def rand_Intn_def wrap64_id)

text \<open>
  C6, as amended. With \<open>k\<close> requests recorded, a rate \<open>R > 0\<close> and no overflow of
  \<open>int64\<close>, \<open>checkSpeedDelayIfNeeded\<close> applies no delay when \<open>k < 10\<close>; otherwise the
  expected duration is \<open>k\<close> times the whole number of nanoseconds in \<open>1s / R\<close>, the sleep
  is that duration minus the elapsed time when the elapsed time is smaller, and there is
  no sleep otherwise.
\<close>

theorem checkSpeedDelayIfNeeded_delay:
  assumes "k = GetNumRequests (stats e)" "R = numReqPerSecond e" "elapsed = now - tmStart (stats e)"
    "0 < R" "0 \<le> elapsed" "elapsed < 2 ^ 63" "k * (time_Second div R) < 2 ^ 63"
  shows "checkSpeedDelayIfNeeded e now w =
           Inr (if k < 10 then w
                else if elapsed < k * (time_Second div R)
                then w\<lparr>sleeps := sleeps w @ [k * (time_Second div R) - elapsed]\<rparr>
                else w)"
proof (cases "k < 10")
  case True
  then show ?thesis using assms(1) by (simp add: checkSpeedDelayIfNeeded_def checkSpeed_def)
next
  case False
  define E where "E = k * (time_Second div R)"
  have k0: "0 \<le> k" using assms(1) by (simp add: GetNumRequests_def)
  have q: "go_quot (1 * time_Second) R = time_Second div R"
    using assms(4) by (simp add: go_quot_def time_Second_def)
  have q0: "0 \<le> time_Second div R" using assms(4) by (simp add: time_Second_def pos_imp_zdiv_nonneg_iff)
  have E0: "0 \<le> E" "E < 2 ^ 63" using k0 q0 assms(7) by (simp_all add: E_def)
  have w1: "wrap64 ((time_Second div R) * k) = E"
    using E0 by (simp add: E_def mult.commute wrap64_id)
  have d: "time_Sub now (tmStart (stats e)) = elapsed"
    using assms(3,5,6) by (simp add: time_Sub_def)
  have w2: "wrap64 (E - elapsed) = E - elapsed"
    using E0 assms(5,6) by (intro wrap64_id) simp_all
  show ?thesis
    using False assms(1,2,4) q w1 d w2
    by (simp add: checkSpeedDelayIfNeeded_def checkSpeed_def Let_def E_def)
qed

theorem checkSpeedDelayIfNeeded_delay_witness:
  "(10::int) = GetNumRequests (stats (engine_ten 4)) \<and> (4::int) = numReqPerSecond (engine_ten 4)
   \<and> (1000000000::int) = 1000000000 - tmStart (stats (engine_ten 4))
   \<and> (0::int) < 4 \<and> (0::int) \<le> 1000000000 \<and> (1000000000::int) < 2 ^ 63
   \<and> (10::int) * (time_Second div 4) < 2 ^ 63
   \<and> checkSpeedDelayIfNeeded (engine_ten 4) 1000000000 world0 =
        Inr (world0\<lparr>sleeps := sleeps world0 @ [1500000000]\<rparr>)"
  using checkSpeedDelayIfNeeded_delay [of 10 "engine_ten 4" 4 1000000000 1000000000 world0]
  by (simp add: engine_ten_def GetNumRequests_def time_Second_def)

text \<open>C6 as stated fails at \<open>R = 3\<close>, \<open>k = 10\<close>: the elapsed time 3333333331 ns is less than
  \<open>k / R\<close>, and no sleep is applied, because the expected duration is 10 * 333333333 ns.\<close>

theorem checkSpeedDelayIfNeeded_counterexample:
  "GetNumRequests (stats (engine_ten 3)) = 10 \<and> numReqPerSecond (engine_ten 3) = 3
   \<and> (3333333331 - tmStart (stats (engine_ten 3))) * numReqPerSecond (engine_ten 3)
        < GetNumRequests (stats (engine_ten 3)) * time_Second
   \<and> checkSpeedDelayIfNeeded (engine_ten 3) 3333333331 world0 = Inr world0"
  by (simp add: engine_ten_def GetNumRequests_def time_Second_def checkSpeedDelayIfNeeded_def
        checkSpeed_def go_quot_def time_Sub_def Let_def wrap64_id)

text \<open>
  C7. \<open>NewRandomKey\<close> is a function of the index alone, its key has 16 bytes, and two
  distinct indices in \<open>[0, 2^32)\<close> give distinct keys, because bytes 4 to 7 hold the index.
\<close>

theorem NewRandomKey_injective:
  assumes "0 \<le> i" "i < 2 ^ 32" "0 \<le> j" "j < 2 ^ 32" "i \<noteq> j"
  shows "NewRandomKey i \<noteq> NewRandomKey j \<and> length (NewRandomKey i) = 16"
proof -
  have "NewRandomKey i \<noteq> NewRandomKey j"
  proof
    assume eq: "NewRandomKey i = NewRandomKey j"
    have "(word_of_int i :: 32 word) = word_of_int j"
      by (rule be_inj) (simp_all only: NewRandomKey_index_bytes [symmetric] eq)
    then have "uint (word_of_int i :: 32 word) = uint (word_of_int j :: 32 word)" by simp
    moreover have "uint (word_of_int i :: 32 word) = i" using assms(1,2)
      by (simp add: uint_word_of_int take_bit_int_eq_self)
    moreover have "uint (word_of_int j :: 32 word) = j" using assms(3,4)
      by (simp add: uint_word_of_int take_bit_int_eq_self)
    ultimately show False using assms(5) by simp
  qed
  then show ?thesis by (simp add: NewRandomKey_length)
qed

theorem NewRandomKey_injective_witness:
  "(0::int) \<le> 0 \<and> (0::int) < 2 ^ 32 \<and> (0::int) \<le> 1 \<and> (1::int) < 2 ^ 32 \<and> (0::int) \<noteq> 1
   \<and> NewRandomKey 0 \<noteq> NewRandomKey 1 \<and> length (NewRandomKey 0) = 16"
  using NewRandomKey_injective [of 0 1] by simp

text \<open>
  C8. \<open>expRand\<close> does not always return a value in \<open>[0, n)\<close>. At \<open>n = 2^53\<close>, when
  \<open>rand.Intn(n)\<close> draws \<open>n - 1\<close>, it returns \<open>-1\<close>: \<open>float64(n + 1)\<close> rounds to \<open>2^53\<close>, so
  both logarithms are taken of the same number, the product \<open>float64(n) * math.Log(m)\<close>
  is exact, the quotient is \<open>2^53 = n\<close> and \<open>n - 1 - n = -1\<close>. This holds for every value
  \<open>math.Log(2^53)\<close> that is a normal float64 whose product with \<open>2^53\<close> does not overflow;
  the first hypothesis says that the float64 term of the run is the one float64 arithmetic
  computes from that \<open>math.Log\<close>.
\<close>

theorem expRand_2p53_negative:
  assumes "f64_term lg (2 ^ 53) (2 ^ 53) = Some (float_term w (2 ^ 53) (2 ^ 53))"
    and "f64_normal (lg (2 ^ 53))"
    and "f64_normal (2 ^ 53 * lg (2 ^ 53))"
    and "int (rand_src w (rand_pos w)) mod 2 ^ 53 = 2 ^ 53 - 1"
  shows "expRand (2 ^ 53) w = Inr (- 1, w\<lparr>rand_pos := Suc (rand_pos w)\<rparr>)"
proof -
  have "lg (2 ^ 53) \<noteq> 0"
    using assms(2) by (auto simp add: f64_normal_def)
  hence "f64_term lg (2 ^ 53) (2 ^ 53) = Some (2 ^ 53)"
    using assms(2) by (intro f64_term_2p53) (simp_all add: f64_normal_def)
  hence ft: "float_term w (2 ^ 53) (2 ^ 53) = 2 ^ 53"
    using assms(1) by simp
  have "wrap64 (- 1) = - 1"
    by (simp add: wrap64_def)
  then show ?thesis
    using ft assms(4) by (simp add: expRand_def rand_Intn_def)
qed

theorem expRand_2p53_negative_witness:
  "f64_term (\<lambda>x. 147 / 4) (2 ^ 53) (2 ^ 53) = Some (float_term world_log (2 ^ 53) (2 ^ 53))
   \<and> f64_normal (147 / 4)
   \<and> f64_normal (2 ^ 53 * (147 / 4))
   \<and> int (rand_src world_log (rand_pos world_log)) mod 2 ^ 53 = 2 ^ 53 - 1
   \<and> expRand (2 ^ 53) world_log = Inr (- 1, world_log\<lparr>rand_pos := Suc (rand_pos world_log)\<rparr>)"
proof -
  have t: "f64_term (\<lambda>x. 147 / 4 :: real) (2 ^ 53) (2 ^ 53) = Some (2 ^ 53)"
    using f64_round_147 by (intro f64_term_2p53) simp_all
  have a: "f64_term (\<lambda>x. 147 / 4) (2 ^ 53) (2 ^ 53) = Some (float_term world_log (2 ^ 53) (2 ^ 53))"
    using t by (simp add: world_log_def)
  have d: "int (rand_src world_log (rand_pos world_log)) mod 2 ^ 53 = 2 ^ 53 - 1"
    by (simp add: world_log_def world0_def)
  show ?thesis
    using expRand_2p53_negative [where lg = "\<lambda>x. 147 / 4" and w = world_log,
        OF a f64_normal_147 f64_normal_147_scaled d] a d f64_normal_147 f64_normal_147_scaled
    by simp
qed

text \<open>
  C9. On a preloaded store whose delete cursor starts at 0, every sequence of \<open>Add\<close>,
  \<open>Get\<close> and \<open>Take\<close> calls returns, leaves \<open>numKeys\<close> as it was and keeps
  \<open>nextDelete \<le> min numKeys MaxDeletes\<close>; a further \<open>Take\<close> moves the cursor by one when
  the store is not delete-exhausted and leaves it in place when it is.
\<close>

theorem nextDelete_bounded:
  assumes "numKeys s > 0" "nextDelete s = 0"
  shows "\<exists>s' w'. store_ops ops s w = Some (Inr (s', w'))
           \<and> numKeys s' = numKeys s
           \<and> nextDelete s' \<le> min (numKeys s') MaxDeletes
           \<and> (\<exists>r s'' w''. Take s' w' = Some (Inr (r, s'', w''))
                 \<and> nextDelete s'' = (if endOfDelete s' then nextDelete s' else nextDelete s' + 1))"
proof -
  have "store_inv s" using assms by (simp add: store_inv_def MaxDeletes_def)
  then obtain s' w' where 1: "store_ops ops s w = Some (Inr (s', w'))" "store_inv s'" "numKeys s' = numKeys s"
    using store_ops_inv by blast
  have "numKeys s' > 0" using 1 assms by simp
  from Take_cursor [OF this, of w'] 1 show ?thesis by (auto simp: store_inv_def)
qed

theorem nextDelete_bounded_witness:
  "numKeys store0 > 0 \<and> nextDelete store0 = 0
   \<and> (\<exists>s' w'. store_ops [OpTake, OpGet, OpTake, OpAdd zeroRecord, OpTake, OpTake] store0 world0 = Some (Inr (s', w'))
           \<and> numKeys s' = numKeys store0
           \<and> nextDelete s' \<le> min (numKeys s') MaxDeletes
           \<and> (\<exists>r s'' w''. Take s' w' = Some (Inr (r, s'', w''))
                 \<and> nextDelete s'' = (if endOfDelete s' then nextDelete s' else nextDelete s' + 1)))"
  using nextDelete_bounded [of store0 "[OpTake, OpGet, OpTake, OpAdd zeroRecord, OpTake, OpTake]" world0]
  by (simp add: store0_def)

text \<open>
  C10. With \<open>numKeys = 0\<close>, \<open>Take\<close> always returns, and when it returns an error the
  error is "no unexpired record" and the collection is empty afterwards: the records the
  call drew and found expired have been removed.
\<close>

theorem Take_dynamic_error_empties:
  assumes "numKeys s = 0"
  shows "\<exists>r err s' w'. Take s w = Some (Inr ((r, err), s', w'))
           \<and> (err = None \<or> (err = Some ''no unexpired record'' \<and> records s' = [] \<and> empty s'))"
  using Take_loop_dynamic [OF assms, of zeroRecord w]
  by (auto simp: Take_def empty_def)

theorem Take_dynamic_error_empties_witness:
  "numKeys store_dyn = 0 \<and> records store_dyn \<noteq> []
   \<and> (\<exists>r err s' w'. Take store_dyn world_late = Some (Inr ((r, err), s', w'))
           \<and> (err = None \<or> (err = Some ''no unexpired record'' \<and> records s' = [] \<and> empty s')))
   \<and> (\<exists>r w'. Take store_dyn world_late = Some (Inr ((r, Some ''no unexpired record''), store_dyn\<lparr>records := []\<rparr>, w')))"
proof -
  have "\<exists>r w'. Take store_dyn world_late = Some (Inr ((r, Some ''no unexpired record''), store_dyn\<lparr>records := []\<rparr>, w'))"
    by (simp add: Take_def Take_loop.simps store_dyn_def world_late_def world0_def empty_def endOfDelete_def
          takeRecord_def rand_Intn_def isExpired_def time_Now_def remove_at_def Let_def)
  then show ?thesis
    using Take_dynamic_error_empties [of store_dyn world_late]
    by (simp add: store_dyn_def)
qed

end
